theory Spec2Isabelle
  imports Main "HOL-Library.Word" "HOL-Library.Sublist"
begin

section \<open>Development scripts of the business-card editor\<close>

text \<open>
  The repository is a bag of independent Python scripts.  Each script is embedded as a
  function from what it reads (a file's text, a row of pixels, a small file system) to
  what it prints and writes.  Python strings are \<^typ>\<open>string\<close>: a list of characters,
  one per code point below 256.  An uncaught Python exception is an \<open>Inl\<close> result.
\<close>

datatype py_error = IndexError | AssertionError | FileNotFoundError | ApiError | OSError

subsection \<open>analyze-6ed0.py: white-region detection\<close>

text \<open>
  A pixel is the first three channels of the \<open>uint8\<close> image array; a row is
  \<open>arr[py, :, :3]\<close>, of width \<open>w\<close>.
\<close>

type_synonym pixel = "8 word \<times> 8 word \<times> 8 word"

definition is_white :: "pixel \<Rightarrow> bool" where
  "is_white p = (case p of (r, g, b) \<Rightarrow> r > 200 \<and> g > 200 \<and> b > 200)"

text \<open>\<open>for px in range(w): ... if r > 200 and g > 200 and b > 200: whites.append(px)\<close>\<close>

definition white_pixels :: "pixel list \<Rightarrow> nat list" where
  "white_pixels row =
     fold (\<lambda>px whites. if is_white (row ! px) then whites @ [px] else whites)
       [0..<length row] []"

datatype white_report = NoWhitePixels | WhiteExtent nat nat nat

text \<open>
  The printed line, without its number formatting: \<open>white x=whites[0]-whites[-1]\<close> and
  \<open>count=len(whites)\<close>, or \<open>NO white pixels\<close>.
\<close>

definition white_row_report :: "pixel list \<Rightarrow> white_report" where
  "white_row_report row =
     (let whites = white_pixels row
      in if whites \<noteq> [] then WhiteExtent (hd whites) (last whites) (length whites)
         else NoWhitePixels)"

lemma fold_append_filter:
  "fold (\<lambda>x acc. if P x then acc @ [x] else acc) xs acc0 = acc0 @ filter P xs"
  by (induction xs arbitrary: acc0) auto

lemma white_pixels_filter:
  "white_pixels row = filter (\<lambda>px. is_white (row ! px)) [0..<length row]"
  by (simp add: white_pixels_def fold_append_filter)

lemma set_white_pixels:
  "set (white_pixels row) = {px. px < length row \<and> is_white (row ! px)}"
  by (auto simp: white_pixels_filter)

lemma sorted_white_pixels: "sorted (white_pixels row)"
  by (simp add: white_pixels_filter sorted_wrt_filter)

lemma distinct_white_pixels: "distinct (white_pixels row)"
  by (simp add: white_pixels_filter)

lemma sorted_hd_Min: "sorted xs \<Longrightarrow> xs \<noteq> [] \<Longrightarrow> hd xs = Min (set (xs :: nat list))"
  by (cases xs) (auto intro!: Min_eqI [symmetric])

lemma sorted_last_Max: "sorted xs \<Longrightarrow> xs \<noteq> [] \<Longrightarrow> last xs = Max (set (xs :: nat list))"
proof (induction xs)
  case Nil
  then show ?case by simp
next
  case (Cons x xs)
  show ?case
  proof (cases "xs = []")
    case True
    then show ?thesis by simp
  next
    case False
    with Cons have "last xs = Max (set xs)" by simp
    moreover from Cons.prems have "\<forall>y\<in>set xs. x \<le> y" by simp
    ultimately show ?thesis using False
      by (simp add: max_def)
  qed
qed

text \<open>The positions of a row whose three channel values all exceed 200.\<close>

definition white_set :: "pixel list \<Rightarrow> nat set" where
  "white_set row = {px. px < length row \<and>
     200 < unat (fst (row ! px)) \<and> 200 < unat (fst (snd (row ! px))) \<and>
     200 < unat (snd (snd (row ! px)))}"

lemma set_white_pixels_white_set: "set (white_pixels row) = white_set row"
  unfolding white_set_def set_white_pixels
  by (auto simp: is_white_def word_less_nat_alt case_prod_beta)

text \<open>
  C7: a pixel is classified white exactly when its three channels all exceed 200; the
  reported extent of a row runs from the first to the last pixel so classified, with
  their count, and a row without such a pixel is reported as having no white pixels.
\<close>

theorem white_region_detection:
  "set (white_pixels row) = white_set row \<and>
   (white_set row = {} \<longrightarrow> white_row_report row = NoWhitePixels) \<and>
   (white_set row \<noteq> {} \<longrightarrow>
      white_row_report row =
        WhiteExtent (Min (white_set row)) (Max (white_set row)) (card (white_set row)))"
proof (intro conjI impI)
  note W = set_white_pixels_white_set [of row]
  show "set (white_pixels row) = white_set row" by (rule W)
  show "white_row_report row = NoWhitePixels" if "white_set row = {}"
    using W that by (auto simp: white_row_report_def Let_def)
  show "white_row_report row =
      WhiteExtent (Min (white_set row)) (Max (white_set row)) (card (white_set row))"
    if "white_set row \<noteq> {}"
  proof -
    from W that have ne: "white_pixels row \<noteq> []" by auto
    have "card (white_set row) = length (white_pixels row)"
      using W distinct_card [OF distinct_white_pixels [of row]] by simp
    with ne W show ?thesis
      by (simp add: white_row_report_def Let_def
          sorted_hd_Min [OF sorted_white_pixels] sorted_last_Max [OF sorted_white_pixels])
  qed
qed

theorem white_region_detection_witness:
  "white_set [(10, 10, 10), (250, 201, 255), (200, 255, 255), (255, 255, 255)] \<noteq> {} \<and>
   white_row_report [(10, 10, 10), (250, 201, 255), (200, 255, 255), (255, 255, 255)]
     = WhiteExtent 1 3 2"
proof -
  let ?row = "[(10, 10, 10), (250, 201, 255), (200, 255, 255), (255, 255, 255)] :: pixel list"
  have "white_pixels ?row = [1, 3]" by code_simp
  then have ws: "white_set ?row = {1, 3}"
    using set_white_pixels_white_set [of ?row] by simp
  then have ne: "white_set ?row \<noteq> {}" by simp
  from white_region_detection [of ?row] ne ws show ?thesis by simp
qed

subsection \<open>Python string operations used by the scripts\<close>

text \<open>
  \<open>str.strip()\<close> removes the characters for which \<open>str.isspace\<close> holds; below 256
  these are 9 to 13, 28 to 32, 133 and 160.
\<close>

definition is_space :: "char \<Rightarrow> bool" where
  "is_space c = (let n = (of_char c :: nat)
                 in (9 \<le> n \<and> n \<le> 13) \<or> (28 \<le> n \<and> n \<le> 32) \<or> n = 133 \<or> n = 160)"

definition py_lstrip :: "string \<Rightarrow> string" where
  "py_lstrip s = dropWhile is_space s"

definition py_rstrip :: "string \<Rightarrow> string" where
  "py_rstrip s = rev (dropWhile is_space (rev s))"

definition py_strip :: "string \<Rightarrow> string" where
  "py_strip s = py_rstrip (py_lstrip s)"

text \<open>\<open>sub in s\<close>\<close>

fun str_contains :: "string \<Rightarrow> string \<Rightarrow> bool" where
  "str_contains sub [] = (sub = [])"
| "str_contains sub (c # cs) = (prefix sub (c # cs) \<or> str_contains sub cs)"

text \<open>
  A file holds its decoded text.  Reading it in text mode (\<open>open(path, 'r')\<close>,
  \<open>Path.read_text\<close>) translates every line ending, a carriage return with its line
  feed or a lone carriage return, to one line feed.  Writing in text mode
  (\<open>open(path, 'w')\<close>, \<open>Path.write_text\<close>) turns every line feed into the line
  separator of the platform, \<open>os.linesep\<close>.
\<close>

fun universal_newlines :: "string \<Rightarrow> string" where
  "universal_newlines [] = []"
| "universal_newlines (c # cs) =
     (if c = CHR 0x0D
      then (case cs of
              [] \<Rightarrow> [CHR 0x0A]
            | d # cs' \<Rightarrow>
                if d = CHR 0x0A then CHR 0x0A # universal_newlines cs'
                else CHR 0x0A # universal_newlines cs)
      else c # universal_newlines cs)"

definition read_text :: "string \<Rightarrow> string" where
  "read_text raw = universal_newlines raw"

definition write_text :: "string \<Rightarrow> string \<Rightarrow> string" where
  "write_text linesep s = concat (map (\<lambda>c. if c = CHR 0x0A then linesep else [c]) s)"

lemma write_text_posix: "write_text [CHR 0x0A] s = s"
  by (induction s) (simp_all add: write_text_def)

text \<open>
  \<open>f.readlines()\<close> and \<open>for line in f\<close> on the text read: the text cut after each
  line feed, the line feeds kept.  \<open>f.writelines(lines)\<close> writes the concatenation.
  \<open>text_lines\<close> gives the lines of a file from the text it holds.
\<close>

fun readlines :: "string \<Rightarrow> string list" where
  "readlines [] = []"
| "readlines (c # cs) =
     (if c = CHR 0x0A then [c] # readlines cs
      else (case readlines cs of [] \<Rightarrow> [[c]] | l # ls \<Rightarrow> (c # l) # ls))"

definition text_lines :: "string \<Rightarrow> string list" where
  "text_lines raw = readlines (read_text raw)"

definition writelines :: "string list \<Rightarrow> string" where
  "writelines ls = concat ls"

text \<open>\<open>s.split('\n')\<close> and \<open>'\n'.join(lines)\<close>\<close>

fun split_nl :: "string \<Rightarrow> string list" where
  "split_nl [] = [[]]"
| "split_nl (c # cs) =
     (if c = CHR 0x0A then [] # split_nl cs
      else (case split_nl cs of [] \<Rightarrow> [[c]] | l # ls \<Rightarrow> (c # l) # ls))"

fun join_nl :: "string list \<Rightarrow> string" where
  "join_nl [] = []"
| "join_nl [l] = l"
| "join_nl (l # ls) = l @ CHR 0x0A # join_nl ls"

text \<open>
  \<open>os.path.join(a, b)\<close> and \<open>os.path.splitext(p)[0]\<close>, in their POSIX form.
\<close>

definition path_join :: "string \<Rightarrow> string \<Rightarrow> string" where
  "path_join a b =
     (if prefix ''/'' b then b
      else if a = [] \<or> suffix ''/'' a then a @ b
      else a @ ''/'' @ b)"

text \<open>The index of the last occurrence of a character, as \<open>p.rfind(c)\<close> with \<open>-1\<close> for none.\<close>

definition rfind_char :: "char \<Rightarrow> string \<Rightarrow> int" where
  "rfind_char c p =
     (case filter (\<lambda>i. p ! i = c) (rev [0..<length p]) of [] \<Rightarrow> - 1 | i # _ \<Rightarrow> int i)"

text \<open>
  \<open>genericpath._splitext\<close>: the extension starts at the last dot after the last
  separator, unless only dots come before it in the file name.
\<close>

definition splitext_root :: "string \<Rightarrow> string" where
  "splitext_root p =
     (let sepIndex = rfind_char CHR ''/'' p; dotIndex = rfind_char CHR ''.'' p
      in if dotIndex > sepIndex \<and>
            (\<exists>k \<in> set [nat (sepIndex + 1)..<nat dotIndex]. p ! k \<noteq> CHR ''.'')
         then take (nat dotIndex) p else p)"

subsection \<open>analyze-business-cards.py\<close>

text \<open>
  What the script can observe: the files (path to text or bytes), which paths can be
  opened for writing, and the vision-model API.  The API is an oracle: the answer to the
  \<open>n\<close>-th call of the run on the given image bytes is an exception or the texts of the
  content blocks of the message.
\<close>

record world =
  files :: "string \<rightharpoonup> string"
  can_write :: "string \<Rightarrow> bool"
  api :: "nat \<Rightarrow> string \<Rightarrow> py_error + string list"

datatype message =
    MissingKey
  | Analyzing nat nat string
  | Analysis string
  | Saved string
  | ErrorAnalyzing string py_error
  | AllSaved string

text \<open>
  The events of a run, in order.  An API call is recorded with the name of the image
  sent and with what the call gave.
\<close>

datatype event =
    OpenRead string
  | OpenWrite string
  | ApiCall string "py_error + string list"
  | Print message

datatype status = Completed | Exit nat | Uncaught py_error

record run =
  trace :: "event list"
  outcome :: status
  files_after :: "string \<rightharpoonup> string"

text \<open>The body of the loop of \<open>load_env\<close>: the entry a line contributes, if any.\<close>

definition env_line :: "string \<Rightarrow> (string \<times> string) option" where
  "env_line l =
     (let line = py_strip l
      in if line \<noteq> [] \<and> \<not> prefix ''#'' line \<and> CHR ''='' \<in> set line
         then Some (py_strip (takeWhile (\<lambda>c. c \<noteq> CHR ''='') line),
                    py_strip (tl (dropWhile (\<lambda>c. c \<noteq> CHR ''='') line)))
         else None)"

fun load_env_lines :: "string list \<Rightarrow> (string \<rightharpoonup> string) \<Rightarrow> (string \<rightharpoonup> string)" where
  "load_env_lines [] env_vars = env_vars"
| "load_env_lines (l # ls) env_vars =
     (case env_line l of
        Some (key, val) \<Rightarrow> load_env_lines ls (env_vars(key \<mapsto> val))
      | None \<Rightarrow> load_env_lines ls env_vars)"

definition env_path :: "string \<Rightarrow> string" where
  "env_path root = path_join root ''.env.local''"

definition load_env :: "string \<Rightarrow> world \<Rightarrow> py_error + (string \<rightharpoonup> string)" where
  "load_env root w =
     (case files w (env_path root) of
        None \<Rightarrow> Inl FileNotFoundError
      | Some raw \<Rightarrow> Inr (load_env_lines (text_lines raw) Map.empty))"

definition images :: "string list" where
  "images =
    [''d470b54b4667bbb67204e858d6f0a01f.jpg'',
     ''d528f0b618c11009c08bd2a93beb890e.jpg'',
     ''dd0acc18c0824cdca8a1969e711c4e4e.jpg'',
     ''Digital Marketing Agency Visiting Card.jpg'',
     ''eadf9c427d539e35f32ac013c0d85254.jpg'',
     ''ed5aed70cf66b85baf0a7a9af5b80f2c.jpg'',
     ''f7aaa659853a816e36f98a2513b16387.jpg'',
     ''f8d2061b39a68b3adb11ece796042007.jpg'',
     ''Message Us on WhatsApp for Custom Design Orders!.jpg'']"

definition base_dir :: "string \<Rightarrow> string" where
  "base_dir root = path_join root ''business-card-examples''"

definition output_dir :: "string \<Rightarrow> string" where
  "output_dir root = path_join (base_dir root) ''analysis''"

definition image_path :: "string \<Rightarrow> string \<Rightarrow> string" where
  "image_path root filename = path_join (base_dir root) filename"

definition output_file :: "string \<Rightarrow> string \<Rightarrow> string" where
  "output_file root filename = path_join (output_dir root) (splitext_root filename @ ''.md'')"

definition report_text :: "string \<Rightarrow> string \<Rightarrow> string" where
  "report_text filename analysis =
     ''# Business Card Analysis: '' @ filename @ [CHR 0x0A, CHR 0x0A] @ analysis"

definition emit :: "event list \<Rightarrow> run \<Rightarrow> run" where
  "emit evs r = r\<lparr>trace := evs @ trace r\<rparr>"

text \<open>
  The loop over the images, from image number \<open>i\<close> with \<open>n_images\<close> images in all, after
  \<open>calls\<close> API calls; \<open>fs\<close> is the current file system.  The run returned holds the
  events from here on.  The image is opened before the \<open>try\<close>; the API call, the
  extraction of \<open>message.content[0].text\<close> and the writing of the report are inside it.
  The image is read as bytes.  The report is written in text mode with the POSIX line
  separator, as the paths are POSIX paths, so that the text written is the text stored.
\<close>

fun analyze_loop ::
  "string \<Rightarrow> world \<Rightarrow> nat \<Rightarrow> nat \<Rightarrow> string list \<Rightarrow> nat \<Rightarrow> (string \<rightharpoonup> string) \<Rightarrow> run" where
  "analyze_loop root w n_images i [] calls fs =
     \<lparr>trace = [Print (AllSaved (output_dir root))], outcome = Completed, files_after = fs\<rparr>"
| "analyze_loop root w n_images i (filename # rest) calls fs =
     (case fs (image_path root filename) of
        None \<Rightarrow>
          \<lparr>trace = [Print (Analyzing (i + 1) n_images filename)],
           outcome = Uncaught FileNotFoundError, files_after = fs\<rparr>
      | Some image_data \<Rightarrow>
          (let r = api w calls image_data;
               evs = [Print (Analyzing (i + 1) n_images filename),
                      OpenRead (image_path root filename), ApiCall filename r]
           in case r of
                Inl e \<Rightarrow>
                  emit (evs @ [Print (ErrorAnalyzing filename e)])
                    (analyze_loop root w n_images (i + 1) rest (calls + 1) fs)
              | Inr [] \<Rightarrow>
                  emit (evs @ [Print (ErrorAnalyzing filename IndexError)])
                    (analyze_loop root w n_images (i + 1) rest (calls + 1) fs)
              | Inr (analysis # _) \<Rightarrow>
                  (if can_write w (output_file root filename)
                   then emit (evs @ [OpenWrite (output_file root filename),
                                     Print (Analysis analysis),
                                     Print (Saved (output_file root filename))])
                          (analyze_loop root w n_images (i + 1) rest (calls + 1)
                             (fs(output_file root filename \<mapsto> report_text filename analysis)))
                   else emit (evs @ [Print (ErrorAnalyzing filename OSError)])
                          (analyze_loop root w n_images (i + 1) rest (calls + 1) fs))))"

text \<open>
  The script: \<open>root\<close> is \<open>os.path.dirname(os.path.dirname(__file__))\<close>.
  \<open>if not api_key\<close> holds for a missing key and for an empty value.  Creating the
  client and the output directory (\<open>os.makedirs\<close> with \<open>exist_ok\<close>) opens no file and
  is taken to succeed; the request carries the base64 text of the image bytes, which
  the API oracle receives as the bytes themselves.
\<close>

definition analyze_business_cards :: "string \<Rightarrow> world \<Rightarrow> run" where
  "analyze_business_cards root w =
     (case load_env root w of
        Inl e \<Rightarrow> \<lparr>trace = [], outcome = Uncaught e, files_after = files w\<rparr>
      | Inr env \<Rightarrow>
          (if env ''ANTHROPIC_API_KEY'' = None \<or> env ''ANTHROPIC_API_KEY'' = Some []
           then \<lparr>trace = [OpenRead (env_path root), Print MissingKey], outcome = Exit 1,
                 files_after = files w\<rparr>
           else emit [OpenRead (env_path root)]
                  (analyze_loop root w (length images) 0 images 0 (files w))))"

subsection \<open>Reading the credentials\<close>

lemma not_space_eq: "\<not> is_space CHR ''=''"
  by (simp add: is_space_def)

lemma dropWhile_space_append_eq:
  "\<not> P x \<Longrightarrow> dropWhile P (a @ x # b) = dropWhile P a @ x # b"
  by (induction a) auto

lemma py_rstrip_Cons:
  "py_rstrip (c # cs) = (if is_space c \<and> (\<forall>x\<in>set cs. is_space x) then [] else c # py_rstrip cs)"
  by (auto simp: py_rstrip_def dropWhile_append)

lemma py_rstrip_all: "(\<forall>x\<in>set cs. is_space x) \<Longrightarrow> py_rstrip cs = []"
  by (simp add: py_rstrip_def)

lemma strip_commute: "py_lstrip (py_rstrip b) = py_rstrip (py_lstrip b)"
proof (induction b)
  case Nil
  then show ?case by (simp add: py_lstrip_def py_rstrip_def)
next
  case (Cons c cs)
  show ?case
  proof (cases "is_space c")
    case False
    then show ?thesis by (simp add: py_rstrip_Cons py_lstrip_def)
  next
    case True
    show ?thesis
    proof (cases "\<forall>x\<in>set cs. is_space x")
      case True
      with \<open>is_space c\<close> have "py_rstrip (c # cs) = []" "py_lstrip (c # cs) = []"
        by (simp_all add: py_rstrip_Cons py_lstrip_def)
      then show ?thesis by (simp only: py_lstrip_def py_rstrip_def dropWhile.simps rev.simps)
    next
      case False
      with \<open>is_space c\<close> Cons show ?thesis
        by (auto simp: py_rstrip_Cons py_lstrip_def)
    qed
  qed
qed

lemma py_lstrip_idem: "py_lstrip (py_lstrip b) = py_lstrip b"
  by (simp add: py_lstrip_def dropWhile_idem)

lemma py_rstrip_idem: "py_rstrip (py_rstrip b) = py_rstrip b"
  by (simp add: py_rstrip_def dropWhile_idem)

lemma py_rstrip_append_eq:
  "\<not> is_space x \<Longrightarrow> py_rstrip (a @ x # b) = a @ x # py_rstrip b"
  by (simp add: py_rstrip_def dropWhile_space_append_eq)

lemma env_line_blank: "py_strip l = [] \<Longrightarrow> env_line l = None"
  by (simp add: env_line_def)

lemma env_line_comment: "prefix ''#'' (py_strip l) \<Longrightarrow> env_line l = None"
  by (simp add: env_line_def)

lemma split_at_eq:
  "CHR ''='' \<in> set l \<Longrightarrow>
   l = takeWhile (\<lambda>c. c \<noteq> CHR ''='') l @ CHR ''='' # tl (dropWhile (\<lambda>c. c \<noteq> CHR ''='') l)"
  by (induction l) auto

lemma py_strip_split:
  assumes "CHR ''='' \<in> set l"
  shows "py_strip l = py_lstrip (takeWhile (\<lambda>c. c \<noteq> CHR ''='') l) @ CHR ''='' #
           py_rstrip (tl (dropWhile (\<lambda>c. c \<noteq> CHR ''='') l))"
proof -
  let ?a = "takeWhile (\<lambda>c. c \<noteq> CHR ''='') l"
  let ?b = "tl (dropWhile (\<lambda>c. c \<noteq> CHR ''='') l)"
  have "py_strip l = py_strip (?a @ CHR ''='' # ?b)"
    using split_at_eq [OF assms] by simp
  also have "\<dots> = py_lstrip ?a @ CHR ''='' # py_rstrip ?b"
    by (simp add: py_strip_def py_lstrip_def dropWhile_space_append_eq py_rstrip_append_eq not_space_eq)
  finally show ?thesis .
qed

lemma env_line_key_value:
  assumes eq: "CHR ''='' \<in> set l" and nc: "\<not> prefix ''#'' (py_strip l)"
  shows "env_line l = Some (py_strip (takeWhile (\<lambda>c. c \<noteq> CHR ''='') l),
                            py_strip (tl (dropWhile (\<lambda>c. c \<noteq> CHR ''='') l)))"
proof -
  let ?a = "takeWhile (\<lambda>c. c \<noteq> CHR ''='') l"
  let ?b = "tl (dropWhile (\<lambda>c. c \<noteq> CHR ''='') l)"
  have line: "py_strip l = py_lstrip ?a @ CHR ''='' # py_rstrip ?b"
    by (rule py_strip_split [OF eq])
  have no_eq: "\<forall>c\<in>set (py_lstrip ?a). c \<noteq> CHR ''=''"
    unfolding py_lstrip_def by (metis set_dropWhileD set_takeWhileD)
  have tk: "takeWhile (\<lambda>c. c \<noteq> CHR ''='') (py_strip l) = py_lstrip ?a"
    unfolding line using no_eq by (simp add: takeWhile_append)
  have dr: "tl (dropWhile (\<lambda>c. c \<noteq> CHR ''='') (py_strip l)) = py_rstrip ?b"
    unfolding line using no_eq by (simp add: dropWhile_append)
  have k: "py_strip (py_lstrip ?a) = py_strip ?a"
    by (simp add: py_strip_def py_lstrip_idem)
  have v: "py_strip (py_rstrip ?b) = py_strip ?b"
    by (simp add: py_strip_def strip_commute py_rstrip_idem)
  have "py_strip l \<noteq> []" "CHR ''='' \<in> set (py_strip l)"
    unfolding line by simp_all
  with nc tk dr k v show ?thesis
    by (simp add: env_line_def Let_def)
qed

lemma load_env_lines_map_of:
  "load_env_lines ls env_vars = env_vars ++ map_of (rev (List.map_filter env_line ls))"
proof (induction ls arbitrary: env_vars)
  case Nil
  then show ?case by (simp add: List.map_filter_simps)
next
  case (Cons l ls)
  show ?case
  proof (cases "env_line l")
    case None
    with Cons show ?thesis by (simp add: List.map_filter_simps)
  next
    case (Some kv)
    obtain k v where kv: "kv = (k, v)" by (cases kv)
    have "load_env_lines (l # ls) env_vars =
            (\<lambda>a. if a = k then Some v else env_vars a) ++
              map_of (rev (List.map_filter env_line ls))"
      using Cons Some kv by simp
    also have "\<dots> = env_vars ++ map_of (rev (List.map_filter env_line (l # ls)))"
      using Some kv
      by (intro ext) (simp add: List.map_filter_simps map_add_def split: option.splits)
    finally show ?thesis .
  qed
qed

lemma missing_key_exit:
  assumes "files w (env_path root) = Some text"
    and "load_env_lines (text_lines text) Map.empty ''ANTHROPIC_API_KEY'' = None"
  shows "analyze_business_cards root w =
           \<lparr>trace = [OpenRead (env_path root), Print MissingKey], outcome = Exit 1,
            files_after = files w\<rparr>"
  using assms by (simp add: analyze_business_cards_def load_env_def)


text \<open>
  C6: \<open>.env.local\<close> is parsed as KEY=VALUE lines, the lines being those of the file
  read in text mode, blank lines and lines starting with \<open>#\<close> ignored, a later line
  overriding an earlier one; when the resulting mapping has no \<open>ANTHROPIC_API_KEY\<close>
  the script prints the error and exits with status 1, having made no API call and
  written no file.
\<close>

theorem load_env_missing_key_exits:
  "(py_strip l = [] \<or> prefix ''#'' (py_strip l) \<longrightarrow> env_line l = None) \<and>
   (CHR ''='' \<in> set l' \<and> \<not> prefix ''#'' (py_strip l') \<longrightarrow>
      env_line l' = Some (py_strip (takeWhile (\<lambda>c. c \<noteq> CHR ''='') l'),
                         py_strip (tl (dropWhile (\<lambda>c. c \<noteq> CHR ''='') l')))) \<and>
   load_env_lines ls Map.empty = map_of (rev (List.map_filter env_line ls)) \<and>
   (files w (env_path root) = Some text \<and>
    load_env_lines (text_lines text) Map.empty ''ANTHROPIC_API_KEY'' = None \<longrightarrow>
      load_env root w = Inr (load_env_lines (text_lines text) Map.empty) \<and>
      analyze_business_cards root w =
        \<lparr>trace = [OpenRead (env_path root), Print MissingKey], outcome = Exit 1,
         files_after = files w\<rparr>)"
proof (intro conjI impI)
  show "env_line l = None" if "py_strip l = [] \<or> prefix ''#'' (py_strip l)"
    using that env_line_blank env_line_comment by blast
  show "env_line l' = Some (py_strip (takeWhile (\<lambda>c. c \<noteq> CHR ''='') l'),
                           py_strip (tl (dropWhile (\<lambda>c. c \<noteq> CHR ''='') l')))"
    if "CHR ''='' \<in> set l' \<and> \<not> prefix ''#'' (py_strip l')"
    using that env_line_key_value by blast
  show "load_env_lines ls Map.empty = map_of (rev (List.map_filter env_line ls))"
    by (simp add: load_env_lines_map_of)
  assume h: "files w (env_path root) = Some text \<and>
    load_env_lines (text_lines text) Map.empty ''ANTHROPIC_API_KEY'' = None"
  then show "load_env root w = Inr (load_env_lines (text_lines text) Map.empty)"
    by (simp add: load_env_def)
  from h show "analyze_business_cards root w =
        \<lparr>trace = [OpenRead (env_path root), Print MissingKey], outcome = Exit 1,
         files_after = files w\<rparr>"
    by (simp add: missing_key_exit)
qed

theorem load_env_missing_key_exits_witness:
  "env_line ''  # secret'' = None \<and>
   env_line '' KEY = v1 '' = Some (''KEY'', ''v1'') \<and>
   text_lines (''# keys'' @ [CHR 0x0D] @ ''OTHER=1'' @ [CHR 0x0D, CHR 0x0A]) =
     [''# keys'' @ [CHR 0x0A], ''OTHER=1'' @ [CHR 0x0A]] \<and>
   analyze_business_cards ''/p''
     \<lparr>files = [''/p/.env.local'' \<mapsto> ''# keys'' @ [CHR 0x0D] @ ''OTHER=1'' @ [CHR 0x0D, CHR 0x0A]],
      can_write = (\<lambda>p. True), api = (\<lambda>n d. Inl ApiError)\<rparr> =
     \<lparr>trace = [OpenRead ''/p/.env.local'', Print MissingKey], outcome = Exit 1,
      files_after =
        [''/p/.env.local'' \<mapsto> ''# keys'' @ [CHR 0x0D] @ ''OTHER=1'' @ [CHR 0x0D, CHR 0x0A]]\<rparr>"
proof -
  let ?text = "''# keys'' @ [CHR 0x0D] @ ''OTHER=1'' @ [CHR 0x0D, CHR 0x0A]"
  let ?w = "\<lparr>files = [''/p/.env.local'' \<mapsto> ?text],
      can_write = (\<lambda>p. True), api = (\<lambda>n d. Inl ApiError)\<rparr>"
  have p: "env_path ''/p'' = ''/p/.env.local''"
    by (simp add: env_path_def path_join_def suffix_def)
  have s1: "py_strip ''  # secret'' = ''# secret''" by code_simp
  have s2: "py_strip '' KEY = v1 '' = ''KEY = v1''" by code_simp
  have s3: "py_strip '' KEY '' = ''KEY''" "py_strip '' v1 '' = ''v1''" by code_simp+
  have rl: "text_lines ?text = [''# keys'' @ [CHR 0x0A], ''OTHER=1'' @ [CHR 0x0A]]"
    by (simp add: text_lines_def read_text_def)
  have e1: "env_line (''# keys'' @ [CHR 0x0A]) = None" by code_simp
  have e2: "env_line (''OTHER=1'' @ [CHR 0x0A]) = Some (''OTHER'', ''1'')" by code_simp
  have none: "load_env_lines (text_lines ?text) Map.empty ''ANTHROPIC_API_KEY'' = None"
    unfolding rl by (simp add: e1 [simplified] e2 [simplified])
  from load_env_missing_key_exits [of "''  # secret''" "'' KEY = v1 ''" "[]" ?w "''/p''" ?text]
  show ?thesis
    using none rl by (simp add: p s1 s2 s3)
qed

text \<open>
  A file whose lines end with a lone carriage return is read line by line all the same:
  the key on its second line is found.
\<close>

lemma load_env_carriage_returns:
  "load_env_lines
     (text_lines (''A=1'' @ [CHR 0x0D] @ ''ANTHROPIC_API_KEY=k'' @ [CHR 0x0D] @ ''B=2''))
     Map.empty ''ANTHROPIC_API_KEY'' = Some ''k''"
proof -
  have rl: "text_lines (''A=1'' @ [CHR 0x0D] @ ''ANTHROPIC_API_KEY=k'' @ [CHR 0x0D] @ ''B=2'')
      = [''A=1'' @ [CHR 0x0A], ''ANTHROPIC_API_KEY=k'' @ [CHR 0x0A], ''B=2'']"
    by (simp add: text_lines_def read_text_def)
  have e1: "env_line (''A=1'' @ [CHR 0x0A]) = Some (''A'', ''1'')" by code_simp
  have e2: "env_line (''ANTHROPIC_API_KEY=k'' @ [CHR 0x0A]) = Some (''ANTHROPIC_API_KEY'', ''k'')"
    by code_simp
  have e3: "env_line ''B=2'' = Some (''B'', ''2'')" by code_simp
  show ?thesis
    unfolding rl by (simp add: e1 [simplified] e2 [simplified] e3)
qed

subsection \<open>The loop over the images\<close>

text \<open>The images sent to the API, in the order of the calls.\<close>

fun api_calls :: "event list \<Rightarrow> string list" where
  "api_calls [] = []"
| "api_calls (ApiCall f r # es) = f # api_calls es"
| "api_calls (e # es) = api_calls es"

text \<open>
  After a failed API call the next event prints the error for the same image, and the one
  after it starts the next image or ends the loop.
\<close>

definition next_image_or_end :: "event list \<Rightarrow> bool" where
  "next_image_or_end es =
     (case es of
        Print (Analyzing i n f) # _ \<Rightarrow> True
      | Print (AllSaved d) # _ \<Rightarrow> True
      | _ \<Rightarrow> False)"

fun errors_printed :: "event list \<Rightarrow> bool" where
  "errors_printed [] = True"
| "errors_printed (ApiCall f (Inl e) # es) =
     (take 1 es = [Print (ErrorAnalyzing f e)] \<and> next_image_or_end (drop 1 es) \<and>
      errors_printed es)"
| "errors_printed (ev # es) = errors_printed es"

lemma trace_emit: "trace (emit evs r) = evs @ trace r"
  by (simp add: emit_def)

lemma outcome_emit: "outcome (emit evs r) = outcome r"
  by (simp add: emit_def)

lemma loop_starts:
  "next_image_or_end (trace (analyze_loop root w n i imgs calls fs))"
  by (cases imgs)
     (auto simp: next_image_or_end_def trace_emit Let_def split: option.splits sum.splits list.splits)

lemma loop_errors_printed:
  "errors_printed (trace (analyze_loop root w n i imgs calls fs))"
proof (induction imgs arbitrary: i calls fs)
  case Nil
  then show ?case by simp
next
  case (Cons f rest)
  note st = loop_starts [of root w n "i + 1" rest "calls + 1"]
  show ?case
    using Cons st
    by (auto simp: trace_emit Let_def split: option.splits sum.splits list.splits)
qed

lemma loop_api_calls_prefix:
  "prefix (api_calls (trace (analyze_loop root w n i imgs calls fs))) imgs"
proof (induction imgs arbitrary: i calls fs)
  case Nil
  then show ?case by simp
next
  case (Cons f rest)
  show ?case
    using Cons
    by (auto simp: trace_emit Let_def split: option.splits sum.splits list.splits)
qed

lemma loop_all_readable:
  "\<forall>f\<in>set imgs. fs (image_path root f) \<noteq> None \<Longrightarrow>
   outcome (analyze_loop root w n i imgs calls fs) = Completed \<and>
   api_calls (trace (analyze_loop root w n i imgs calls fs)) = imgs"
proof (induction imgs arbitrary: i calls fs)
  case Nil
  then show ?case by simp
next
  case (Cons f rest)
  from Cons.prems obtain d where d: "fs (image_path root f) = Some d" by auto
  have r1: "\<forall>g\<in>set rest. fs (image_path root g) \<noteq> None" using Cons.prems by simp
  have ih2: "outcome (analyze_loop root w n i' rest c' (fs(p \<mapsto> t))) = Completed \<and>
      api_calls (trace (analyze_loop root w n i' rest c' (fs(p \<mapsto> t)))) = rest" for i' c' p t
    by (rule Cons.IH) (use r1 in simp)
  show ?case
    using d Cons.IH [OF r1] ih2
    by (auto simp: trace_emit outcome_emit Let_def split: sum.splits list.splits)
qed

lemma loop_unreadable:
  "fs (image_path root f) = None \<Longrightarrow>
   analyze_loop root w n i (f # rest) calls fs =
     \<lparr>trace = [Print (Analyzing (i + 1) n f)], outcome = Uncaught FileNotFoundError,
      files_after = fs\<rparr>"
  by simp


text \<open>
  C5 (as amended): an exception of the API call is caught, printed for the image it
  belongs to, and the loop goes on with the next image; the images are sent at most
  once each, in order, and when every image can be opened the loop completes with one
  call per image.  A failure to open the image is outside the \<open>try\<close>: the run
  stops there with the uncaught error.
\<close>

theorem api_errors_caught_open_errors_uncaught:
  "errors_printed (trace (analyze_loop root w n i imgs calls fs)) \<and>
   prefix (api_calls (trace (analyze_loop root w n i imgs calls fs))) imgs \<and>
   ((\<forall>f\<in>set imgs. fs (image_path root f) \<noteq> None) \<longrightarrow>
      outcome (analyze_loop root w n i imgs calls fs) = Completed \<and>
      api_calls (trace (analyze_loop root w n i imgs calls fs)) = imgs) \<and>
   (fs (image_path root f) = None \<longrightarrow>
      analyze_loop root w n i (f # rest) calls fs =
        \<lparr>trace = [Print (Analyzing (i + 1) n f)], outcome = Uncaught FileNotFoundError,
         files_after = fs\<rparr>)"
proof (intro conjI impI)
  show "errors_printed (trace (analyze_loop root w n i imgs calls fs))"
    by (rule loop_errors_printed)
  show "prefix (api_calls (trace (analyze_loop root w n i imgs calls fs))) imgs"
    by (rule loop_api_calls_prefix)
  assume "\<forall>f\<in>set imgs. fs (image_path root f) \<noteq> None"
  then show "outcome (analyze_loop root w n i imgs calls fs) = Completed"
    and "api_calls (trace (analyze_loop root w n i imgs calls fs)) = imgs"
    by (simp_all add: loop_all_readable)
next
  assume "fs (image_path root f) = None"
  then show "analyze_loop root w n i (f # rest) calls fs =
        \<lparr>trace = [Print (Analyzing (i + 1) n f)], outcome = Uncaught FileNotFoundError,
         files_after = fs\<rparr>"
    by (rule loop_unreadable)
qed

theorem api_errors_caught_open_errors_uncaught_witness:
  "[''/p/business-card-examples/a.jpg'' \<mapsto> ''A'', ''/p/business-card-examples/b.jpg'' \<mapsto> ''B'']
     (image_path ''/p'' ''a.jpg'') \<noteq> None \<and>
   [''/p/business-card-examples/a.jpg'' \<mapsto> ''A'', ''/p/business-card-examples/b.jpg'' \<mapsto> ''B'']
     (image_path ''/p'' ''b.jpg'') \<noteq> None \<and>
   analyze_loop ''/p'' \<lparr>files = Map.empty, can_write = (\<lambda>p. True),
       api = (\<lambda>k d. if k = 0 then Inl ApiError else Inr [''fine''])\<rparr> 2 0 [''a.jpg'', ''b.jpg''] 0
     [''/p/business-card-examples/a.jpg'' \<mapsto> ''A'', ''/p/business-card-examples/b.jpg'' \<mapsto> ''B''] =
   \<lparr>trace = [Print (Analyzing 1 2 ''a.jpg''), OpenRead ''/p/business-card-examples/a.jpg'',
       ApiCall ''a.jpg'' (Inl ApiError), Print (ErrorAnalyzing ''a.jpg'' ApiError),
       Print (Analyzing 2 2 ''b.jpg''), OpenRead ''/p/business-card-examples/b.jpg'',
       ApiCall ''b.jpg'' (Inr [''fine'']), OpenWrite ''/p/business-card-examples/analysis/b.md'',
       Print (Analysis ''fine''), Print (Saved ''/p/business-card-examples/analysis/b.md''),
       Print (AllSaved ''/p/business-card-examples/analysis'')],
     outcome = Completed,
     files_after = [''/p/business-card-examples/a.jpg'' \<mapsto> ''A'',
       ''/p/business-card-examples/b.jpg'' \<mapsto> ''B'',
       ''/p/business-card-examples/analysis/b.md'' \<mapsto> report_text ''b.jpg'' ''fine'']\<rparr> \<and>
   errors_printed (trace (analyze_loop ''/p'' \<lparr>files = Map.empty, can_write = (\<lambda>p. True),
       api = (\<lambda>k d. if k = 0 then Inl ApiError else Inr [''fine''])\<rparr> 2 0 [''a.jpg'', ''b.jpg''] 0
     [''/p/business-card-examples/a.jpg'' \<mapsto> ''A'', ''/p/business-card-examples/b.jpg'' \<mapsto> ''B''])) \<and>
   api_calls (trace (analyze_loop ''/p'' \<lparr>files = Map.empty, can_write = (\<lambda>p. True),
       api = (\<lambda>k d. if k = 0 then Inl ApiError else Inr [''fine''])\<rparr> 2 0 [''a.jpg'', ''b.jpg''] 0
     [''/p/business-card-examples/a.jpg'' \<mapsto> ''A'', ''/p/business-card-examples/b.jpg'' \<mapsto> ''B'']))
     = [''a.jpg'', ''b.jpg''] \<and>
   [''/p/business-card-examples/a.jpg'' \<mapsto> ''A''] (image_path ''/p'' ''b.jpg'') = None \<and>
   outcome (analyze_loop ''/p'' \<lparr>files = Map.empty, can_write = (\<lambda>p. True),
       api = (\<lambda>k d. if k = 0 then Inl ApiError else Inr [''fine''])\<rparr> 2 1 [''b.jpg''] 1
     [''/p/business-card-examples/a.jpg'' \<mapsto> ''A''])
     = Uncaught FileNotFoundError"
proof -
  let ?w = "\<lparr>files = Map.empty, can_write = (\<lambda>p. True),
       api = (\<lambda>k d. if k = 0 then Inl ApiError else Inr [''fine''])\<rparr>"
  let ?fs = "[''/p/business-card-examples/a.jpg'' \<mapsto> ''A'', ''/p/business-card-examples/b.jpg'' \<mapsto> ''B'']"
  let ?fs1 = "[''/p/business-card-examples/a.jpg'' \<mapsto> ''A'']"
  have pa: "image_path ''/p'' ''a.jpg'' = ''/p/business-card-examples/a.jpg''"
    and pb: "image_path ''/p'' ''b.jpg'' = ''/p/business-card-examples/b.jpg''"
    and od: "output_dir ''/p'' = ''/p/business-card-examples/analysis''"
    by (simp_all add: image_path_def output_dir_def base_dir_def path_join_def suffix_def)
  have sa: "splitext_root ''a.jpg'' = ''a''" and sb: "splitext_root ''b.jpg'' = ''b''"
    by code_simp+
  have oa: "output_file ''/p'' ''a.jpg'' = ''/p/business-card-examples/analysis/a.md''"
    and ob: "output_file ''/p'' ''b.jpg'' = ''/p/business-card-examples/analysis/b.md''"
    by (simp_all add: output_file_def od sa sb path_join_def suffix_def)
  have run: "analyze_loop ''/p'' ?w 2 0 [''a.jpg'', ''b.jpg''] 0 ?fs =
   \<lparr>trace = [Print (Analyzing 1 2 ''a.jpg''), OpenRead ''/p/business-card-examples/a.jpg'',
       ApiCall ''a.jpg'' (Inl ApiError), Print (ErrorAnalyzing ''a.jpg'' ApiError),
       Print (Analyzing 2 2 ''b.jpg''), OpenRead ''/p/business-card-examples/b.jpg'',
       ApiCall ''b.jpg'' (Inr [''fine'']), OpenWrite ''/p/business-card-examples/analysis/b.md'',
       Print (Analysis ''fine''), Print (Saved ''/p/business-card-examples/analysis/b.md''),
       Print (AllSaved ''/p/business-card-examples/analysis'')],
     outcome = Completed,
     files_after = ?fs(''/p/business-card-examples/analysis/b.md'' \<mapsto> report_text ''b.jpg'' ''fine'')\<rparr>"
    by (simp add: pa pb od oa ob emit_def)
  have rd: "\<forall>f\<in>set [''a.jpg'', ''b.jpg'']. ?fs (image_path ''/p'' f) \<noteq> None"
    by (simp add: pa pb)
  have nb: "?fs1 (image_path ''/p'' ''b.jpg'') = None" by (simp add: pb)
  from api_errors_caught_open_errors_uncaught
         [of "''/p''" ?w 2 0 "[''a.jpg'', ''b.jpg'']" 0 ?fs] rd
  have "errors_printed (trace (analyze_loop ''/p'' ?w 2 0 [''a.jpg'', ''b.jpg''] 0 ?fs))"
    and "api_calls (trace (analyze_loop ''/p'' ?w 2 0 [''a.jpg'', ''b.jpg''] 0 ?fs))
      = [''a.jpg'', ''b.jpg'']"
    by blast+
  moreover
  from api_errors_caught_open_errors_uncaught
         [of "''/p''" ?w 2 1 "[]" 1 ?fs1 "''b.jpg''" "[]"] nb
  have "outcome (analyze_loop ''/p'' ?w 2 1 [''b.jpg''] 1 ?fs1) = Uncaught FileNotFoundError"
    by simp
  ultimately show ?thesis using run rd nb by simp
qed

text \<open>
  With the key present and the first image missing, the run ends with the uncaught error
  of the \<open>open\<close>: nothing is printed for it and no later image is tried.
\<close>

theorem image_open_failure_not_caught:
  "analyze_business_cards ''/p''
     \<lparr>files = [''/p/.env.local'' \<mapsto> ''ANTHROPIC_API_KEY=k''], can_write = (\<lambda>p. True),
      api = (\<lambda>k d. Inr [''fine''])\<rparr> =
   \<lparr>trace = [OpenRead ''/p/.env.local'',
              Print (Analyzing 1 9 ''d470b54b4667bbb67204e858d6f0a01f.jpg'')],
    outcome = Uncaught FileNotFoundError,
    files_after = [''/p/.env.local'' \<mapsto> ''ANTHROPIC_API_KEY=k'']\<rparr>"
proof -
  have p: "env_path ''/p'' = ''/p/.env.local''"
    by (simp add: env_path_def path_join_def suffix_def)
  have e: "env_line ''ANTHROPIC_API_KEY=k'' = Some (''ANTHROPIC_API_KEY'', ''k'')"
    by code_simp
  have i: "image_path ''/p'' ''d470b54b4667bbb67204e858d6f0a01f.jpg''
      = ''/p/business-card-examples/d470b54b4667bbb67204e858d6f0a01f.jpg''"
    by (simp add: image_path_def base_dir_def path_join_def suffix_def)
  show ?thesis
    by (simp add: analyze_business_cards_def load_env_def text_lines_def read_text_def p e
        images_def i emit_def)
qed

section \<open>Source-patching scripts\<close>

subsection \<open>More string operations\<close>

text \<open>
  \<open>s.replace(old, new)\<close>: the occurrences of \<open>old\<close> are replaced from the left,
  without overlap.  For an empty \<open>old\<close> Python puts \<open>new\<close> before every character
  and at the end.
\<close>

function replace_from :: "string \<Rightarrow> string \<Rightarrow> string \<Rightarrow> string" where
  "replace_from old new [] = []"
| "replace_from old new (c # cs) =
     (if old \<noteq> [] \<and> prefix old (c # cs)
      then new @ replace_from old new (drop (length old) (c # cs))
      else c # replace_from old new cs)"
  by pat_completeness auto
termination
  by (relation "measure (\<lambda>(old, new, s). length s)") (auto simp: neq_Nil_conv)

definition py_replace :: "string \<Rightarrow> string \<Rightarrow> string \<Rightarrow> string" where
  "py_replace old new s =
     (if old = [] then new @ concat (map (\<lambda>c. c # new) s) else replace_from old new s)"

text \<open>
  The characters matched by \<open>\w\<close> in a \<open>str\<close> pattern: letters, digits and numeric
  characters, and the underscore.  Below 256 these are the ASCII ones and 170, 178, 179,
  181, 185, 186, 188 to 190, 192 to 214, 216 to 246 and 248 to 255.
\<close>

definition is_word :: "char \<Rightarrow> bool" where
  "is_word c =
     (let n = (of_char c :: nat)
      in (48 \<le> n \<and> n \<le> 57) \<or> (65 \<le> n \<and> n \<le> 90) \<or> n = 95 \<or> (97 \<le> n \<and> n \<le> 122) \<or>
         n = 170 \<or> n = 178 \<or> n = 179 \<or> n = 181 \<or> n = 185 \<or> n = 186 \<or>
         (188 \<le> n \<and> n \<le> 190) \<or> (192 \<le> n \<and> n \<le> 214) \<or> (216 \<le> n \<and> n \<le> 246) \<or>
         (248 \<le> n \<and> n \<le> 255))"

text \<open>
  \<open>re.sub(r'\bff\b', 'cfg.fontFamily', s)\<close>, scanning from the left; \<open>pw\<close> tells
  whether the character before the current position is a word character.  A match
  needs a word boundary before \<open>ff\<close> and one after it.
\<close>

fun re_sub_ff :: "bool \<Rightarrow> string \<Rightarrow> string" where
  "re_sub_ff pw [] = []"
| "re_sub_ff pw [c] = [c]"
| "re_sub_ff pw (c # d # cs) =
     (if \<not> pw \<and> c = CHR ''f'' \<and> d = CHR ''f'' \<and> (case cs of [] \<Rightarrow> True | e # _ \<Rightarrow> \<not> is_word e)
      then ''cfg.fontFamily'' @ re_sub_ff True cs
      else c # re_sub_ff (is_word c) (d # cs))"

subsection \<open>fix-ff-errors.py\<close>

definition ff_error_lines :: "nat list" where
  "ff_error_lines =
     [3292, 3298, 3308, 3322, 3329,
      3476, 3482, 3494,
      3626, 3632, 3642,
      3784, 3790, 3802,
      3915, 3921, 3932]"

text \<open>
  \<open>for line_num in ff_error_lines\<close>, on the list of lines and the counter
  \<open>changes\<close>.  \<open>lines[idx]\<close> raises \<open>IndexError\<close> beyond the end of the list.
\<close>

fun ff_loop :: "nat list \<Rightarrow> string list \<Rightarrow> nat \<Rightarrow> py_error + (string list \<times> nat)" where
  "ff_loop [] lines changes = Inr (lines, changes)"
| "ff_loop (line_num # rest) lines changes =
     (let idx = line_num - 1
      in if length lines \<le> idx then Inl IndexError
         else (let old = lines ! idx; new = re_sub_ff False old
               in if new \<noteq> old then ff_loop rest (lines[idx := new]) (changes + 1)
                  else ff_loop rest lines changes))"

definition fix_ff_errors_lines :: "string list \<Rightarrow> py_error + (string list \<times> nat)" where
  "fix_ff_errors_lines lines0 =
     (case ff_loop ff_error_lines lines0 0 of
        Inl e \<Rightarrow> Inl e
      | Inr (lines, changes) \<Rightarrow>
          (let idx_3950 = 3950 - 1
           in if length lines \<le> idx_3950 then Inl IndexError
              else if str_contains ''const ff = ff'' (lines ! idx_3950)
                   then Inr (lines[idx_3950 := []], changes + 1)
                   else Inr (lines, changes)))"

text \<open>From the text read to the text written and the number of changes printed.\<close>

definition fix_ff_errors :: "string \<Rightarrow> py_error + (string \<times> nat)" where
  "fix_ff_errors content =
     (case fix_ff_errors_lines (readlines content) of
        Inl e \<Rightarrow> Inl e
      | Inr (lines, changes) \<Rightarrow> Inr (writelines lines, changes))"

text \<open>The target of the patching scripts, \<open>d:\dramac-ai-suite\src\lib\editor\business-card-adapter.ts\<close>.\<close>

definition adapter_file :: string where
  "adapter_file = ''d:'' @ [CHR 0x5C] @ ''dramac-ai-suite'' @ [CHR 0x5C] @ ''src'' @ [CHR 0x5C] @
     ''lib'' @ [CHR 0x5C] @ ''editor'' @ [CHR 0x5C] @ ''business-card-adapter.ts''"

text \<open>
  The shape of a patching script on a file system: the file is read in text mode, the
  edits are made on the text read, and the file is written in text mode.  The edits may
  end the run before the file is opened for writing, by \<open>exit\<close> or by an exception,
  which leaves the file as it was; after the write the script ends with a status of its
  own.  Of what a script prints only the file events are kept here.
\<close>

definition patch_script ::
  "string \<Rightarrow> string \<Rightarrow> (string \<Rightarrow> status + string \<times> status) \<Rightarrow> (string \<rightharpoonup> string) \<Rightarrow> run" where
  "patch_script linesep path edit fs =
     (case fs path of
        None \<Rightarrow> \<lparr>trace = [], outcome = Uncaught FileNotFoundError, files_after = fs\<rparr>
      | Some raw \<Rightarrow>
          (case edit (read_text raw) of
             Inl stop \<Rightarrow> \<lparr>trace = [OpenRead path], outcome = stop, files_after = fs\<rparr>
           | Inr (new_text, final) \<Rightarrow>
               \<lparr>trace = [OpenRead path, OpenWrite path], outcome = final,
                files_after = fs(path \<mapsto> write_text linesep new_text)\<rparr>))"

definition fix_ff_errors_run :: "string \<Rightarrow> (string \<rightharpoonup> string) \<Rightarrow> run" where
  "fix_ff_errors_run linesep =
     patch_script linesep adapter_file
       (\<lambda>content. case fix_ff_errors content of
                     Inl e \<Rightarrow> Inl (Uncaught e)
                   | Inr (new_content, changes) \<Rightarrow> Inr (new_content, Completed))"

subsection \<open>fix-fonts.py\<close>

definition front_font_lines :: "nat list" where
  "front_font_lines = [672, 1191, 1398, 1598, 1814, 2030, 2314, 2521, 2746, 2964]"

definition back_font_lines :: "nat list" where
  "back_font_lines = [714, 1046, 1326, 1473, 1716, 1926, 2155, 2408, 2630, 2902, 3102]"

definition front_ff_delete_lines :: "nat list" where
  "front_ff_delete_lines = [3175, 3334, 3499, 3647, 3808, 3938]"

definition back_ff_lines :: "nat list" where
  "back_ff_lines = [3264, 3424, 3591, 3763, 3894, 4023]"

text \<open>
  The bodies of the three \<open>for i, line in enumerate(lines)\<close> loops, on the list of lines
  and the counter \<open>changes_made\<close>.  No loop changes the length of the list, so \<open>i\<close>
  stays in range.
\<close>

definition replace_line :: "string \<Rightarrow> nat \<Rightarrow> string list \<times> nat \<Rightarrow> string list \<times> nat" where
  "replace_line new i st =
     (case st of (lines, changes_made) \<Rightarrow>
        (let old = lines ! i;
             lines' = lines[i := py_replace ''FONT_STACKS.geometric'' new (lines ! i)]
         in (lines', if old \<noteq> lines' ! i then changes_made + 1 else changes_made)))"

definition listed_lines_step :: "nat \<Rightarrow> string list \<times> nat \<Rightarrow> string list \<times> nat" where
  "listed_lines_step i st =
     (let line_num = i + 1
      in if line_num \<in> set front_font_lines then replace_line ''ff'' i st
         else if line_num \<in> set back_font_lines then replace_line ''cfg.fontFamily'' i st
         else if line_num \<in> set front_ff_delete_lines then
           (case st of (lines, changes_made) \<Rightarrow>
              if str_contains ''const ff = FONT_STACKS.geometric'' (lines ! i)
              then (lines[i := []], changes_made + 1) else (lines, changes_made))
         else if line_num \<in> set back_ff_lines then replace_line ''cfg.fontFamily'' i st
         else st)"

text \<open>\<open>for j in range(max(0, i-15), i): if 'registerBackLayout' in lines[j]\<close>\<close>

definition is_back :: "string list \<Rightarrow> nat \<Rightarrow> bool" where
  "is_back lines i = list_ex (\<lambda>j. str_contains ''registerBackLayout'' (lines ! j)) [i - 15..<i]"

definition sans_font_step :: "nat \<Rightarrow> string list \<times> nat \<Rightarrow> string list \<times> nat" where
  "sans_font_step i st =
     (case st of (lines, changes_made) \<Rightarrow>
        if str_contains ''const sansFont = FONT_STACKS.geometric'' (lines ! i)
        then (if is_back lines i
              then (lines[i := py_replace ''FONT_STACKS.geometric'' ''cfg.fontFamily'' (lines ! i)],
                    changes_made + 1)
              else (lines[i := py_replace ''FONT_STACKS.geometric'' ''ff'' (lines ! i)],
                    changes_made + 1))
        else (lines, changes_made))"

definition serif_font_step :: "nat \<Rightarrow> string list \<times> nat \<Rightarrow> string list \<times> nat" where
  "serif_font_step i st =
     (case st of (lines, changes_made) \<Rightarrow>
        if str_contains ''const serifFont = FONT_STACKS.serif'' (lines ! i)
        then (if is_back lines i
              then (lines[i := py_replace ''FONT_STACKS.serif'' ''cfg.fontFamily'' (lines ! i)],
                    changes_made + 1)
              else (lines, changes_made))
        else (lines, changes_made))"

definition fix_fonts_lines :: "string list \<Rightarrow> string list \<times> nat" where
  "fix_fonts_lines lines =
     (let n = length lines;
          st1 = fold listed_lines_step [0..<n] (lines, 0);
          st2 = fold sans_font_step [0..<n] st1
      in fold serif_font_step [0..<n] st2)"

text \<open>From the text read to the text written and the number of changes printed.\<close>

definition fix_fonts :: "string \<Rightarrow> string \<times> nat" where
  "fix_fonts content =
     (case fix_fonts_lines (split_nl content) of
        (lines, changes_made) \<Rightarrow> (join_nl lines, changes_made))"

definition fix_fonts_run :: "string \<Rightarrow> (string \<rightharpoonup> string) \<Rightarrow> run" where
  "fix_fonts_run linesep =
     patch_script linesep adapter_file (\<lambda>content. Inr (fst (fix_fonts content), Completed))"

subsection \<open>fix-ff-errors.py: the line accesses\<close>

lemma ff_loop_length:
  "ff_loop lns lines ch = Inr (lines', ch') \<Longrightarrow> length lines' = length lines"
  by (induction lns arbitrary: lines ch) (auto simp: Let_def split: if_splits)

lemma ff_loop_error:
  "ff_loop lns lines ch = Inl e \<Longrightarrow> e = IndexError"
  by (induction lns arbitrary: lines ch) (auto simp: Let_def split: if_splits)

lemma ff_loop_in_range:
  "\<forall>ln\<in>set lns. ln - 1 < length lines \<Longrightarrow> \<exists>r. ff_loop lns lines ch = Inr r"
  by (induction lns arbitrary: lines ch) (auto simp: Let_def)

lemma ff_loop_changes:
  "ff_loop lns lines ch = Inr (lines', ch') \<Longrightarrow> ch \<le> ch' \<and> (ch' = ch \<longrightarrow> lines' = lines)"
proof (induction lns arbitrary: lines ch)
  case Nil
  then show ?case by simp
next
  case (Cons ln lns)
  then show ?case
    by (fastforce simp: Let_def split: if_splits)
qed

lemma ff_error_lines_bound: "\<forall>ln\<in>set ff_error_lines. ln - 1 < 3950"
  by (simp add: ff_error_lines_def)

lemma fix_ff_errors_lines_ok:
  assumes "3950 \<le> length lines"
  shows "\<exists>r. fix_ff_errors_lines lines = Inr r"
proof -
  have "\<forall>ln\<in>set ff_error_lines. ln - 1 < length lines"
    using ff_error_lines_bound assms by fastforce
  then obtain ls ch where r: "ff_loop ff_error_lines lines 0 = Inr (ls, ch)"
    using ff_loop_in_range by (metis surj_pair)
  then have "length ls = length lines" by (rule ff_loop_length)
  with assms r show ?thesis
    by (simp add: fix_ff_errors_lines_def Let_def)
qed

lemma fix_ff_errors_lines_short:
  assumes "length lines < 3950"
  shows "fix_ff_errors_lines lines = Inl IndexError"
proof (cases "ff_loop ff_error_lines lines 0")
  case (Inl e)
  then show ?thesis using ff_loop_error [OF Inl] by (simp add: fix_ff_errors_lines_def)
next
  case (Inr r)
  obtain ls ch where r: "r = (ls, ch)" by (cases r)
  with Inr have "length ls = length lines" using ff_loop_length by blast
  with assms Inr r show ?thesis by (simp add: fix_ff_errors_lines_def Let_def)
qed

lemma fix_ff_errors_lines_changes:
  assumes "fix_ff_errors_lines lines = Inr (lines', 0)"
  shows "lines' = lines"
proof (cases "ff_loop ff_error_lines lines 0")
  case (Inl e)
  with assms show ?thesis by (simp add: fix_ff_errors_lines_def)
next
  case (Inr r)
  obtain ls ch where r: "r = (ls, ch)" by (cases r)
  from assms Inr r have "ch = 0" "lines' = ls"
    by (auto simp: fix_ff_errors_lines_def Let_def split: if_splits)
  with ff_loop_changes [of ff_error_lines lines 0 ls ch] Inr r show ?thesis by simp
qed

lemma concat_readlines: "concat (readlines s) = s"
  by (induction s) (auto split: list.splits)

lemma readlines_newlines: "readlines (replicate n (CHR 0x0A)) = replicate n [CHR 0x0A]"
  by (induction n) auto


lemma universal_newlines_returns:
  "universal_newlines (replicate n (CHR 0x0D)) = replicate n (CHR 0x0A)"
proof (induction n)
  case 0
  then show ?case by simp
next
  case (Suc n)
  then show ?case by (cases n) simp_all
qed

lemma text_lines_returns: "text_lines (replicate n (CHR 0x0D)) = replicate n [CHR 0x0A]"
  by (simp add: text_lines_def read_text_def universal_newlines_returns readlines_newlines)

text \<open>
  C9: the script indexes the list of lines at fixed positions up to 3950 without a
  check.  The lines are those of the file read in text mode.  On a file of at least
  3950 lines every access is in range and the script completes, writing the file; on a
  shorter file it raises \<open>IndexError\<close> before the file is opened for writing, which
  leaves the file as it was.
\<close>

theorem fix_ff_errors_needs_3950_lines:
  "(3950 \<le> length (text_lines raw) \<longrightarrow>
      (\<exists>new_content changes. fix_ff_errors (read_text raw) = Inr (new_content, changes))) \<and>
   (length (text_lines raw) < 3950 \<longrightarrow> fix_ff_errors (read_text raw) = Inl IndexError) \<and>
   (fs adapter_file = Some raw \<and> 3950 \<le> length (text_lines raw) \<longrightarrow>
      outcome (fix_ff_errors_run linesep fs) = Completed \<and>
      trace (fix_ff_errors_run linesep fs) = [OpenRead adapter_file, OpenWrite adapter_file]) \<and>
   (fs adapter_file = Some raw \<and> length (text_lines raw) < 3950 \<longrightarrow>
      fix_ff_errors_run linesep fs =
        \<lparr>trace = [OpenRead adapter_file], outcome = Uncaught IndexError, files_after = fs\<rparr>)"
proof -
  let ?content = "read_text raw"
  have ok: "\<exists>new_content changes. fix_ff_errors ?content = Inr (new_content, changes)"
    if "3950 \<le> length (text_lines raw)"
  proof -
    from that have "3950 \<le> length (readlines ?content)" by (simp add: text_lines_def)
    from fix_ff_errors_lines_ok [OF this] obtain ls ch
      where "fix_ff_errors_lines (readlines ?content) = Inr (ls, ch)" by (metis surj_pair)
    then show ?thesis by (simp add: fix_ff_errors_def)
  qed
  have short: "fix_ff_errors ?content = Inl IndexError" if "length (text_lines raw) < 3950"
  proof -
    from that have "length (readlines ?content) < 3950" by (simp add: text_lines_def)
    from fix_ff_errors_lines_short [OF this] show ?thesis by (simp add: fix_ff_errors_def)
  qed
  show ?thesis
  proof (intro conjI impI)
    show "\<exists>new_content changes. fix_ff_errors ?content = Inr (new_content, changes)"
      if "3950 \<le> length (text_lines raw)" using that by (rule ok)
    show "fix_ff_errors ?content = Inl IndexError" if "length (text_lines raw) < 3950"
      using that by (rule short)
    show "outcome (fix_ff_errors_run linesep fs) = Completed"
      if "fs adapter_file = Some raw \<and> 3950 \<le> length (text_lines raw)"
      using that ok by (auto simp: fix_ff_errors_run_def patch_script_def)
    show "trace (fix_ff_errors_run linesep fs) = [OpenRead adapter_file, OpenWrite adapter_file]"
      if "fs adapter_file = Some raw \<and> 3950 \<le> length (text_lines raw)"
      using that ok by (auto simp: fix_ff_errors_run_def patch_script_def)
    show "fix_ff_errors_run linesep fs =
        \<lparr>trace = [OpenRead adapter_file], outcome = Uncaught IndexError, files_after = fs\<rparr>"
      if "fs adapter_file = Some raw \<and> length (text_lines raw) < 3950"
      using that short by (simp add: fix_ff_errors_run_def patch_script_def)
  qed
qed

theorem fix_ff_errors_needs_3950_lines_witness:
  "3950 \<le> length (text_lines (replicate 3950 (CHR 0x0D))) \<and>
   outcome (fix_ff_errors_run [CHR 0x0D, CHR 0x0A] [adapter_file \<mapsto> replicate 3950 (CHR 0x0D)])
     = Completed \<and>
   trace (fix_ff_errors_run [CHR 0x0D, CHR 0x0A] [adapter_file \<mapsto> replicate 3950 (CHR 0x0D)])
     = [OpenRead adapter_file, OpenWrite adapter_file] \<and>
   length (text_lines (replicate 3949 (CHR 0x0D))) < 3950 \<and>
   fix_ff_errors_run [CHR 0x0D, CHR 0x0A] [adapter_file \<mapsto> replicate 3949 (CHR 0x0D)] =
     \<lparr>trace = [OpenRead adapter_file], outcome = Uncaught IndexError,
      files_after = [adapter_file \<mapsto> replicate 3949 (CHR 0x0D)]\<rparr>"
proof -
  have a: "3950 \<le> length (text_lines (replicate 3950 (CHR 0x0D)))"
    by (simp add: text_lines_returns)
  have b: "length (text_lines (replicate 3949 (CHR 0x0D))) < 3950"
    by (simp add: text_lines_returns)
  from fix_ff_errors_needs_3950_lines
         [of "replicate 3950 (CHR 0x0D)" "[adapter_file \<mapsto> replicate 3950 (CHR 0x0D)]"
            "[CHR 0x0D, CHR 0x0A]"] a
  have "outcome (fix_ff_errors_run [CHR 0x0D, CHR 0x0A]
          [adapter_file \<mapsto> replicate 3950 (CHR 0x0D)]) = Completed"
    and "trace (fix_ff_errors_run [CHR 0x0D, CHR 0x0A]
          [adapter_file \<mapsto> replicate 3950 (CHR 0x0D)])
        = [OpenRead adapter_file, OpenWrite adapter_file]"
    by simp_all
  moreover
  from fix_ff_errors_needs_3950_lines
         [of "replicate 3949 (CHR 0x0D)" "[adapter_file \<mapsto> replicate 3949 (CHR 0x0D)]"
            "[CHR 0x0D, CHR 0x0A]"] b
  have "fix_ff_errors_run [CHR 0x0D, CHR 0x0A] [adapter_file \<mapsto> replicate 3949 (CHR 0x0D)] =
     \<lparr>trace = [OpenRead adapter_file], outcome = Uncaught IndexError,
      files_after = [adapter_file \<mapsto> replicate 3949 (CHR 0x0D)]\<rparr>"
    by simp
  ultimately show ?thesis using a b by blast
qed

subsection \<open>fix-fonts.py: the lines are kept\<close>

lemma split_nl_nonempty: "split_nl s \<noteq> []"
  by (induction s) (auto split: list.splits)

lemma join_nl_Cons: "ls \<noteq> [] \<Longrightarrow> join_nl (l # ls) = l @ CHR 0x0A # join_nl ls"
  by (cases ls) simp_all

lemma join_nl_Cons_Cons: "join_nl ((c # l) # ls) = c # join_nl (l # ls)"
  by (cases ls) simp_all

lemma join_split_nl: "join_nl (split_nl s) = s"
proof (induction s)
  case Nil
  then show ?case by simp
next
  case (Cons c s)
  show ?case
  proof (cases "c = CHR 0x0A")
    case True
    with Cons show ?thesis by (simp add: join_nl_Cons split_nl_nonempty)
  next
    case False
    obtain l ls where sp: "split_nl s = l # ls"
      using split_nl_nonempty [of s] by (cases "split_nl s") auto
    with False Cons show ?thesis by (simp add: join_nl_Cons_Cons)
  qed
qed

definition no_newline :: "string list \<Rightarrow> bool" where
  "no_newline ls = (\<forall>l\<in>set ls. CHR 0x0A \<notin> set l)"

lemma split_nl_no_newline: "no_newline (split_nl s)"
  unfolding no_newline_def
proof (induction s)
  case Nil
  then show ?case by simp
next
  case (Cons c s)
  then show ?case
    using split_nl_nonempty [of s] by (auto split: list.splits)
qed

lemma split_nl_line: "CHR 0x0A \<notin> set l \<Longrightarrow> split_nl l = [l]"
  by (induction l) auto

lemma split_nl_append: "CHR 0x0A \<notin> set l \<Longrightarrow> split_nl (l @ CHR 0x0A # r) = l # split_nl r"
  by (induction l) auto

lemma split_join_nl: "ls \<noteq> [] \<Longrightarrow> no_newline ls \<Longrightarrow> split_nl (join_nl ls) = ls"
proof (induction ls)
  case Nil
  then show ?case by simp
next
  case (Cons l ls)
  show ?case
  proof (cases "ls = []")
    case True
    with Cons.prems show ?thesis by (simp add: no_newline_def split_nl_line)
  next
    case False
    with Cons show ?thesis
      by (simp add: no_newline_def join_nl_Cons split_nl_append)
  qed
qed

lemma replace_from_no_newline:
  "CHR 0x0A \<notin> set new \<Longrightarrow> CHR 0x0A \<notin> set s \<Longrightarrow> CHR 0x0A \<notin> set (replace_from old new s)"
proof (induction old new s rule: replace_from.induct)
  case (1 old new)
  then show ?case by simp
next
  case (2 old new c cs)
  show ?case
  proof (cases "old \<noteq> [] \<and> prefix old (c # cs)")
    case True
    have "set (drop (length old) (c # cs)) \<subseteq> set (c # cs)" by (rule set_drop_subset)
    with "2.prems" have "CHR 0x0A \<notin> set (drop (length old) (c # cs))" by blast
    with 2 True show ?thesis by simp
  next
    case False
    with 2 show ?thesis by auto
  qed
qed

lemma py_replace_no_newline:
  "old \<noteq> [] \<Longrightarrow> CHR 0x0A \<notin> set new \<Longrightarrow> CHR 0x0A \<notin> set s \<Longrightarrow>
   CHR 0x0A \<notin> set (py_replace old new s)"
  by (simp add: py_replace_def replace_from_no_newline)

lemma no_newline_update:
  "no_newline ls \<Longrightarrow> CHR 0x0A \<notin> set l \<Longrightarrow> no_newline (ls[i := l])"
  unfolding no_newline_def using set_update_subset_insert [of ls i l] by auto

lemma no_newline_nth: "no_newline ls \<Longrightarrow> i < length ls \<Longrightarrow> CHR 0x0A \<notin> set (ls ! i)"
  by (simp add: no_newline_def)

lemma no_newline_replaced:
  assumes "no_newline ls" "i < length ls" "old \<noteq> []" "CHR 0x0A \<notin> set new"
  shows "no_newline (ls[i := py_replace old new (ls ! i)])"
  using assms by (intro no_newline_update py_replace_no_newline no_newline_nth)

text \<open>What every step of the three loops keeps.\<close>

definition keeps_lines :: "(nat \<Rightarrow> string list \<times> nat \<Rightarrow> string list \<times> nat) \<Rightarrow> bool" where
  "keeps_lines step =
     (\<forall>i lines ch. i < length lines \<and> no_newline lines \<longrightarrow>
        length (fst (step i (lines, ch))) = length lines \<and>
        no_newline (fst (step i (lines, ch))))"

lemma fold_keeps_lines:
  assumes "keeps_lines step"
  shows "\<forall>i\<in>set idxs. i < length (fst st) \<Longrightarrow> no_newline (fst st) \<Longrightarrow>
         length (fst (fold step idxs st)) = length (fst st) \<and>
         no_newline (fst (fold step idxs st))"
proof (induction idxs arbitrary: st)
  case Nil
  then show ?case by simp
next
  case (Cons i idxs)
  obtain lines ch where st: "st = (lines, ch)" by (cases st)
  from assms Cons.prems st
  have k: "length (fst (step i st)) = length (fst st)" "no_newline (fst (step i st))"
    by (auto simp: keeps_lines_def)
  from Cons.prems k have "\<forall>j\<in>set idxs. j < length (fst (step i st))" by simp
  from Cons.IH [OF this k(2)] k show ?case by simp
qed

lemma replace_line_keeps: "CHR 0x0A \<notin> set new \<Longrightarrow> keeps_lines (replace_line new)"
  by (simp add: keeps_lines_def replace_line_def Let_def no_newline_replaced)

lemma listed_lines_step_keeps: "keeps_lines listed_lines_step"
proof -
  have a: "keeps_lines (replace_line ''ff'')" by (rule replace_line_keeps) simp
  have b: "keeps_lines (replace_line ''cfg.fontFamily'')" by (rule replace_line_keeps) simp
  show ?thesis
    unfolding keeps_lines_def
  proof (intro allI impI)
    fix i lines ch
    assume h: "i < length lines \<and> no_newline lines"
    from a h have a': "length (fst (replace_line ''ff'' i (lines, ch))) = length lines \<and>
        no_newline (fst (replace_line ''ff'' i (lines, ch)))"
      unfolding keeps_lines_def by blast
    from b h have b': "length (fst (replace_line ''cfg.fontFamily'' i (lines, ch))) = length lines \<and>
        no_newline (fst (replace_line ''cfg.fontFamily'' i (lines, ch)))"
      unfolding keeps_lines_def by blast
    from h have c: "no_newline (lines[i := []])" by (simp add: no_newline_update)
    show "length (fst (listed_lines_step i (lines, ch))) = length lines \<and>
        no_newline (fst (listed_lines_step i (lines, ch)))"
      using a' b' c h unfolding listed_lines_step_def Let_def by (simp split: if_splits)
  qed
qed

lemma sans_font_step_keeps: "keeps_lines sans_font_step"
  by (simp add: keeps_lines_def sans_font_step_def no_newline_replaced)

lemma serif_font_step_keeps: "keeps_lines serif_font_step"
  by (simp add: keeps_lines_def serif_font_step_def no_newline_replaced)

lemma fix_fonts_lines_keeps:
  assumes "no_newline lines"
  shows "length (fst (fix_fonts_lines lines)) = length lines \<and>
         no_newline (fst (fix_fonts_lines lines))"
proof -
  let ?n = "length lines"
  let ?st1 = "fold listed_lines_step [0..<?n] (lines, 0)"
  let ?st2 = "fold sans_font_step [0..<?n] ?st1"
  let ?st3 = "fold serif_font_step [0..<?n] ?st2"
  have 1: "length (fst ?st1) = ?n \<and> no_newline (fst ?st1)"
    using fold_keeps_lines [OF listed_lines_step_keeps, of "[0..<?n]" "(lines, 0)"] assms
    by simp
  have 2: "length (fst ?st2) = ?n \<and> no_newline (fst ?st2)"
    using fold_keeps_lines [OF sans_font_step_keeps, of "[0..<?n]" ?st1] 1 by simp
  have 3: "length (fst ?st3) = ?n \<and> no_newline (fst ?st3)"
    using fold_keeps_lines [OF serif_font_step_keeps, of "[0..<?n]" ?st2] 2 by simp
  then show ?thesis by (simp add: fix_fonts_lines_def Let_def)
qed

text \<open>
  C8: the three loops only assign to \<open>lines[i]\<close>, a rewritten line or the empty line,
  so the list keeps its length; no new line holds a newline, so the text written back
  has as many newline-separated lines as the text read.
\<close>

theorem fix_fonts_keeps_line_count:
  "length (fst (fix_fonts_lines (split_nl content))) = length (split_nl content) \<and>
   length (split_nl (fst (fix_fonts content))) = length (split_nl content)"
proof -
  obtain lines ch where r: "fix_fonts_lines (split_nl content) = (lines, ch)"
    by (cases "fix_fonts_lines (split_nl content)")
  from fix_fonts_lines_keeps [OF split_nl_no_newline, of content] r
  have k: "length lines = length (split_nl content)" "no_newline lines" by simp_all
  then have "lines \<noteq> []" using split_nl_nonempty [of content] by auto
  with k r show ?thesis by (simp add: fix_fonts_def split_join_nl)
qed

theorem fix_fonts_keeps_line_count_witness:
  "length (split_nl (fst (fix_fonts
     (''a'' @ [CHR 0x0A] @ ''const sansFont = FONT_STACKS.geometric'' @ [CHR 0x0A])))) = 3"
  using fix_fonts_keeps_line_count
          [of "''a'' @ [CHR 0x0A] @ ''const sansFont = FONT_STACKS.geometric'' @ [CHR 0x0A]"]
  by simp

subsection \<open>Runs that change nothing\<close>

lemma replace_from_absent: "\<not> str_contains old s \<Longrightarrow> replace_from old new s = s"
  by (induction old new s rule: replace_from.induct) auto

lemma py_replace_absent: "old \<noteq> [] \<Longrightarrow> \<not> str_contains old s \<Longrightarrow> py_replace old new s = s"
  by (simp add: py_replace_def replace_from_absent)

text \<open>A step that leaves the counter as it was has left the lines as they were.\<close>

definition counts_changes :: "(nat \<Rightarrow> string list \<times> nat \<Rightarrow> string list \<times> nat) \<Rightarrow> bool" where
  "counts_changes step =
     (\<forall>i lines ch. ch \<le> snd (step i (lines, ch)) \<and>
        (snd (step i (lines, ch)) = ch \<longrightarrow> fst (step i (lines, ch)) = lines))"

lemma fold_counts_changes:
  assumes "counts_changes step"
  shows "snd st \<le> snd (fold step idxs st) \<and>
         (snd (fold step idxs st) = snd st \<longrightarrow> fst (fold step idxs st) = fst st)"
proof (induction idxs arbitrary: st)
  case Nil
  then show ?case by simp
next
  case (Cons i idxs)
  obtain lines ch where st: "st = (lines, ch)" by (cases st)
  from assms st have a: "snd st \<le> snd (step i st)"
    and b: "snd (step i st) = snd st \<longrightarrow> fst (step i st) = fst st"
    by (auto simp: counts_changes_def)
  from Cons.IH [of "step i st"] a b show ?case by auto
qed

lemma replace_line_counts: "counts_changes (replace_line new)"
  unfolding counts_changes_def replace_line_def Let_def
proof (intro allI, goal_cases)
  case (1 i lines ch)
  show ?case
  proof (cases "i < length lines")
    case True
    then show ?thesis by (auto simp: list_update_same_conv)
  next
    case False
    then show ?thesis by (simp add: list_update_beyond)
  qed
qed

lemma listed_lines_step_counts: "counts_changes listed_lines_step"
  using replace_line_counts [of "''ff''"] replace_line_counts [of "''cfg.fontFamily''"]
  unfolding counts_changes_def listed_lines_step_def Let_def
  by (simp split: if_splits)

lemma sans_font_step_counts: "counts_changes sans_font_step"
  by (simp add: counts_changes_def sans_font_step_def)

lemma serif_font_step_counts: "counts_changes serif_font_step"
  by (simp add: counts_changes_def serif_font_step_def)

lemma fix_fonts_lines_no_changes:
  assumes "snd (fix_fonts_lines lines) = 0"
  shows "fst (fix_fonts_lines lines) = lines"
proof -
  let ?n = "length lines"
  let ?st1 = "fold listed_lines_step [0..<?n] (lines, 0)"
  let ?st2 = "fold sans_font_step [0..<?n] ?st1"
  let ?st3 = "fold serif_font_step [0..<?n] ?st2"
  note c1 = fold_counts_changes [OF listed_lines_step_counts, of "(lines, 0)" "[0..<?n]"]
  note c2 = fold_counts_changes [OF sans_font_step_counts, of ?st1 "[0..<?n]"]
  note c3 = fold_counts_changes [OF serif_font_step_counts, of ?st2 "[0..<?n]"]
  from assms have z3: "snd ?st3 = 0" by (simp add: fix_fonts_lines_def Let_def)
  with c3 have z2: "snd ?st2 = 0" by simp
  with c2 have z1: "snd ?st1 = 0" by simp
  from c1 z1 have "fst ?st1 = lines" by simp
  with c2 z1 z2 have "fst ?st2 = lines" by simp
  with c3 z2 z3 have "fst ?st3 = lines" by simp
  then show ?thesis by (simp add: fix_fonts_lines_def Let_def)
qed

text \<open>
  No listed line holds the text searched for on it, and no line holds the monogram
  \<open>sansFont\<close> or \<open>serifFont\<close> declaration.
\<close>

definition no_listed_match :: "string list \<Rightarrow> bool" where
  "no_listed_match lines =
     ((\<forall>ln\<in>set (front_font_lines @ back_font_lines @ back_ff_lines).
         ln \<le> length lines \<longrightarrow> \<not> str_contains ''FONT_STACKS.geometric'' (lines ! (ln - 1))) \<and>
      (\<forall>ln\<in>set front_ff_delete_lines.
         ln \<le> length lines \<longrightarrow>
         \<not> str_contains ''const ff = FONT_STACKS.geometric'' (lines ! (ln - 1))) \<and>
      (\<forall>l\<in>set lines.
         \<not> str_contains ''const sansFont = FONT_STACKS.geometric'' l \<and>
         \<not> str_contains ''const serifFont = FONT_STACKS.serif'' l))"

lemma fold_fixed: "\<forall>i\<in>set idxs. step i st = st \<Longrightarrow> fold step idxs st = st"
  by (induction idxs) auto

lemma replace_line_absent:
  "\<not> str_contains ''FONT_STACKS.geometric'' (lines ! i) \<Longrightarrow>
   replace_line new i (lines, ch) = (lines, ch)"
  by (simp add: replace_line_def Let_def py_replace_absent)

lemma listed_lines_step_fixed:
  assumes "no_listed_match lines" "i < length lines"
  shows "listed_lines_step i (lines, ch) = (lines, ch)"
proof -
  have g: "\<not> str_contains ''FONT_STACKS.geometric'' (lines ! i)"
    if "Suc i \<in> set front_font_lines \<or> Suc i \<in> set back_font_lines \<or> Suc i \<in> set back_ff_lines"
  proof -
    from that have "Suc i \<in> set (front_font_lines @ back_font_lines @ back_ff_lines)" by auto
    moreover from assms(2) have "Suc i \<le> length lines" by simp
    ultimately have "\<not> str_contains ''FONT_STACKS.geometric'' (lines ! (Suc i - 1))"
      using assms(1) unfolding no_listed_match_def by blast
    then show ?thesis by simp
  qed
  have d: "\<not> str_contains ''const ff = FONT_STACKS.geometric'' (lines ! i)"
    if "Suc i \<in> set front_ff_delete_lines"
  proof -
    from assms(2) have "Suc i \<le> length lines" by simp
    with that have "\<not> str_contains ''const ff = FONT_STACKS.geometric'' (lines ! (Suc i - 1))"
      using assms(1) unfolding no_listed_match_def by blast
    then show ?thesis by simp
  qed
  show ?thesis
    unfolding listed_lines_step_def Let_def
    using g d by (simp add: replace_line_absent)
qed

lemma fix_fonts_lines_fixed:
  assumes "no_listed_match lines"
  shows "fix_fonts_lines lines = (lines, 0)"
proof -
  let ?n = "length lines"
  have 1: "fold listed_lines_step [0..<?n] (lines, 0) = (lines, 0)"
    by (rule fold_fixed) (simp add: listed_lines_step_fixed [OF assms])
  have 2: "fold sans_font_step [0..<?n] (lines, 0) = (lines, 0)"
    using assms by (intro fold_fixed) (simp add: sans_font_step_def no_listed_match_def)
  have 3: "fold serif_font_step [0..<?n] (lines, 0) = (lines, 0)"
    using assms by (intro fold_fixed) (simp add: serif_font_step_def no_listed_match_def)
  show ?thesis by (simp add: fix_fonts_lines_def Let_def 1 2 3)
qed

text \<open>
  C10: when fix-fonts.py counts no change (as when no listed line holds the searched
  text and no line holds a monogram declaration), the text written is the text read,
  splitting at newlines and joining with newlines being the identity; likewise for
  fix-ff-errors.py with \<open>readlines\<close> and \<open>writelines\<close> when it counts no change.
\<close>

theorem unchanged_lines_round_trip:
  "(snd (fix_fonts content) = 0 \<longrightarrow> fst (fix_fonts content) = content) \<and>
   (no_listed_match (split_nl content) \<longrightarrow> fix_fonts content = (content, 0)) \<and>
   join_nl (split_nl content) = content \<and>
   (fix_ff_errors content = Inr (new_content, 0) \<longrightarrow> new_content = content) \<and>
   writelines (readlines content) = content"
proof (intro conjI impI)
  show "fst (fix_fonts content) = content" if "snd (fix_fonts content) = 0"
  proof -
    from that have "snd (fix_fonts_lines (split_nl content)) = 0"
      by (simp add: fix_fonts_def case_prod_beta)
    from fix_fonts_lines_no_changes [OF this] show ?thesis
      by (simp add: fix_fonts_def join_split_nl case_prod_beta)
  qed
  show "fix_fonts content = (content, 0)" if "no_listed_match (split_nl content)"
    using fix_fonts_lines_fixed [OF that] by (simp add: fix_fonts_def join_split_nl)
  show "join_nl (split_nl content) = content" by (rule join_split_nl)
  show "new_content = content" if "fix_ff_errors content = Inr (new_content, 0)"
  proof -
    from that obtain ls where ls: "fix_ff_errors_lines (readlines content) = Inr (ls, 0)"
      and nc: "new_content = writelines ls"
      by (auto simp: fix_ff_errors_def split: sum.splits)
    from fix_ff_errors_lines_changes [OF ls] nc show ?thesis
      by (simp add: writelines_def concat_readlines)
  qed
  show "writelines (readlines content) = content"
    by (simp add: writelines_def concat_readlines)
qed

theorem unchanged_lines_round_trip_witness:
  "fix_fonts (''const a = FONT_STACKS.geometric;'' @ [CHR 0x0A] @ ''x'')
     = (''const a = FONT_STACKS.geometric;'' @ [CHR 0x0A] @ ''x'', 0) \<and>
   fix_ff_errors (replicate 3950 (CHR 0x0A)) = Inr (replicate 3950 (CHR 0x0A), 0)"
proof -
  let ?c = "''const a = FONT_STACKS.geometric;'' @ [CHR 0x0A] @ ''x''"
  let ?d = "replicate 3950 (CHR 0x0A)"
  have sp: "split_nl ?c = [''const a = FONT_STACKS.geometric;'', ''x'']" by simp
  have nm: "no_listed_match (split_nl ?c)"
    unfolding sp no_listed_match_def
    by (simp add: front_font_lines_def back_font_lines_def back_ff_lines_def
        front_ff_delete_lines_def)
  from unchanged_lines_round_trip [of ?c] nm
  have f: "fix_fonts ?c = (?c, 0)" by blast
  have "ff_loop ff_error_lines (replicate 3950 [CHR 0x0A]) 0 = Inr (replicate 3950 [CHR 0x0A], 0)"
    by (simp add: ff_error_lines_def)
  then have "fix_ff_errors ?d = Inr (writelines (replicate 3950 [CHR 0x0A]), 0)"
    by (simp add: fix_ff_errors_def fix_ff_errors_lines_def readlines_newlines)
  with unchanged_lines_round_trip [of ?d "writelines (replicate 3950 [CHR 0x0A])"]
  have "fix_ff_errors ?d = Inr (?d, 0)" by simp
  with f show ?thesis by simp
qed

subsection \<open>add-logo-to-templates.py\<close>

text \<open>\<open>s.count(c)\<close> for a single character.\<close>

definition count_char :: "char \<Rightarrow> string \<Rightarrow> int" where
  "count_char c s = int (length (filter (\<lambda>x. x = c) s))"

text \<open>The first index of a line with the property, as the first \<open>for\<close> loop with its \<open>break\<close>.\<close>

fun first_index :: "('a \<Rightarrow> bool) \<Rightarrow> 'a list \<Rightarrow> nat option" where
  "first_index P [] = None"
| "first_index P (x # xs) =
     (if P x then Some 0 else map_option Suc (first_index P xs))"

text \<open>
  \<open>for i in range(start, len(lines))\<close>: the lines from \<open>i\<close> on, with the brace depth
  so far.
\<close>

fun scan_return :: "string list \<Rightarrow> nat \<Rightarrow> int \<Rightarrow> nat option" where
  "scan_return [] i brace_depth = None"
| "scan_return (l # ls) i brace_depth =
     (let brace_depth' = brace_depth + (count_char CHR ''{'' l - count_char CHR ''}'' l)
      in if py_strip l = ''return layers;'' \<and> brace_depth' \<le> 1 then Some i
         else scan_return ls (i + 1) brace_depth')"

datatype warning = FunctionNotFound string | ReturnNotFound string

text \<open>The pair returned and the warning printed, if any.\<close>

definition find_function_range ::
  "string list \<Rightarrow> string \<Rightarrow> (nat option \<times> nat option) \<times> warning list" where
  "find_function_range lines func_name =
     (case first_index (str_contains (''function '' @ func_name @ ''('')) lines of
        None \<Rightarrow> ((None, None), [FunctionNotFound func_name])
      | Some start \<Rightarrow>
          (case scan_return (drop start lines) start 0 of
             Some i \<Rightarrow> ((Some start, Some i), [])
           | None \<Rightarrow> ((Some start, None), [ReturnNotFound func_name])))"

text \<open>\<open>lines.insert(k, x)\<close> for \<open>k \<ge> 0\<close>: beyond the end it appends.\<close>

definition list_insert :: "nat \<Rightarrow> 'a \<Rightarrow> 'a list \<Rightarrow> 'a list" where
  "list_insert k x xs = take k xs @ x # drop k xs"

text \<open>
  \<open>insert_before_return\<close>: the value returned, the list of lines after it and the
  warnings printed.
\<close>

definition insert_before_return ::
  "string list \<Rightarrow> string \<Rightarrow> string list \<Rightarrow> bool \<times> string list \<times> warning list" where
  "insert_before_return lines func_name code_lines =
     (case find_function_range lines func_name of
        ((_, None), ws) \<Rightarrow> (False, lines, ws)
      | ((_, Some ret_line), ws) \<Rightarrow>
          (True,
           fold (\<lambda>(j, cl) ls. list_insert (ret_line + j) cl ls)
             (zip [0..<length code_lines] code_lines) lines,
           ws))"

text \<open>The lines inserted for a template, from its four expressions.\<close>

definition logo_code :: "string \<Rightarrow> string \<Rightarrow> string \<Rightarrow> string \<Rightarrow> string list" where
  "logo_code x_expr y_expr size_expr color_expr =
     [[],
      ''  // -- Logo watermark --'',
      ''  layers.push(...buildWatermarkLogo('',
      ''    cfg.logoUrl, cfg.company || '' @ [CHR 0x22] @ ''Co'' @ [CHR 0x22] @ '','',
      ''    Math.round('' @ x_expr @ ''), Math.round('' @ y_expr @ ''),'',
      ''    Math.round('' @ size_expr @ ''), '' @ color_expr @ '', 1.0, ff'',
      ''  ));'']"

lemma fold_list_insert:
  "r + m \<le> length ls \<Longrightarrow>
   fold (\<lambda>(j, cl) ls. list_insert (r + j) cl ls) (zip [m..<m + length code] code) ls
     = take (r + m) ls @ code @ drop (r + m) ls"
proof (induction code arbitrary: m ls)
  case Nil
  then show ?case by simp
next
  case (Cons c cs)
  let ?ls' = "list_insert (r + m) c ls"
  have z: "zip [m..<m + length (c # cs)] (c # cs) = (m, c) # zip [Suc m..<Suc m + length cs] cs"
    by (simp del: upt_Suc add: upt_conv_Cons)
  have len: "r + Suc m \<le> length ?ls'" using Cons.prems by (simp add: list_insert_def)
  have t: "take (r + Suc m) ?ls' = take (r + m) ls @ [c]"
    using Cons.prems by (simp add: list_insert_def min_def)
  have d: "drop (r + Suc m) ?ls' = drop (r + m) ls"
    using Cons.prems by (simp add: list_insert_def min_def)
  show ?case
    unfolding z using Cons.IH [OF len] t d by simp
qed

lemma insert_lines:
  "r \<le> length ls \<Longrightarrow>
   fold (\<lambda>(j, cl) ls. list_insert (r + j) cl ls) (zip [0..<length code] code) ls
     = take r ls @ code @ drop r ls"
  using fold_list_insert [of r 0 ls code] by simp

text \<open>The change of the brace depth over some lines.\<close>

definition brace_delta :: "string list \<Rightarrow> int" where
  "brace_delta ls = (\<Sum>l\<leftarrow>ls. count_char CHR ''{'' l - count_char CHR ''}'' l)"

lemma scan_return_bounds:
  "scan_return ls i d = Some r \<Longrightarrow> i \<le> r \<and> r < i + length ls"
  by (induction ls arbitrary: i d) (fastforce simp: Let_def split: if_splits)+

lemma scan_return_hit:
  "scan_return ls i d = Some r \<Longrightarrow>
   py_strip (ls ! (r - i)) = ''return layers;'' \<and>
   d + brace_delta (take (Suc (r - i)) ls) \<le> 1"
proof (induction ls arbitrary: i d)
  case Nil
  then show ?case by simp
next
  case (Cons l ls)
  let ?d' = "d + (count_char CHR ''{'' l - count_char CHR ''}'' l)"
  show ?case
  proof (cases "py_strip l = ''return layers;'' \<and> ?d' \<le> 1")
    case True
    with Cons.prems show ?thesis by (simp add: Let_def brace_delta_def)
  next
    case False
    with Cons.prems have s: "scan_return ls (i + 1) ?d' = Some r" by (simp add: Let_def)
    from scan_return_bounds [OF s] have b: "i + 1 \<le> r" by simp
    then have e: "r - i = Suc (r - (i + 1))" by simp
    from Cons.IH [OF s] show ?thesis
      unfolding e by (simp add: brace_delta_def)
  qed
qed

lemma scan_return_prefix:
  "scan_return ls i d = Some r \<Longrightarrow>
   scan_return (take (r - i) ls @ xs) i d = scan_return xs r (d + brace_delta (take (r - i) ls))"
proof (induction ls arbitrary: i d)
  case Nil
  then show ?case by simp
next
  case (Cons l ls)
  let ?d' = "d + (count_char CHR ''{'' l - count_char CHR ''}'' l)"
  show ?case
  proof (cases "py_strip l = ''return layers;'' \<and> ?d' \<le> 1")
    case True
    with Cons.prems have "r = i" by (simp add: Let_def)
    then show ?thesis by (simp add: brace_delta_def)
  next
    case False
    with Cons.prems have s: "scan_return ls (i + 1) ?d' = Some r" by (simp add: Let_def)
    from scan_return_bounds [OF s] have b: "i + 1 \<le> r" by simp
    then have e: "r - i = Suc (r - (i + 1))" by simp
    from Cons.IH [OF s] False show ?thesis
      unfolding e by (auto simp: brace_delta_def Let_def add.assoc)
  qed
qed

lemma scan_return_found:
  "py_strip l = ''return layers;'' \<Longrightarrow> d + brace_delta (code @ [l]) \<le> 1 \<Longrightarrow>
   \<exists>r. scan_return (code @ l # post) i d = Some r"
proof (induction code arbitrary: i d)
  case Nil
  then show ?case by (simp add: brace_delta_def Let_def)
next
  case (Cons c cs)
  let ?d' = "d + (count_char CHR ''{'' c - count_char CHR ''}'' c)"
  from Cons.prems have "?d' + brace_delta (cs @ [l]) \<le> 1" by (simp add: brace_delta_def)
  from Cons.IH [OF Cons.prems(1) this, of "i + 1"] show ?case
    by (auto simp: Let_def)
qed


lemma brace_delta_append: "brace_delta (xs @ ys) = brace_delta xs + brace_delta ys"
  by (simp add: brace_delta_def)

lemma str_contains_hd: "str_contains (c # m) l \<Longrightarrow> c \<in> set l"
  by (induction l) auto

lemma set_py_strip: "set l \<subseteq> set (py_strip l) \<union> {c. is_space c}"
proof -
  have a: "set xs \<subseteq> set (dropWhile is_space xs) \<union> {c. is_space c}" for xs
  proof -
    have "set xs = set (takeWhile is_space xs) \<union> set (dropWhile is_space xs)"
      by (metis set_append takeWhile_dropWhile_id)
    then show ?thesis by (auto dest: set_takeWhileD)
  qed
  have "set l \<subseteq> set (py_lstrip l) \<union> {c. is_space c}"
    unfolding py_lstrip_def by (rule a)
  moreover have "set (py_lstrip l) \<subseteq> set (py_rstrip (py_lstrip l)) \<union> {c. is_space c}"
    unfolding py_rstrip_def using a [of "rev (py_lstrip l)"] by simp
  ultimately show ?thesis unfolding py_strip_def by blast
qed

lemma function_line_not_return:
  assumes "str_contains (''function '' @ func_name @ ''('') l"
  shows "py_strip l \<noteq> ''return layers;''"
proof
  assume r: "py_strip l = ''return layers;''"
  from assms have "CHR ''f'' \<in> set l" by (simp add: str_contains_hd)
  with set_py_strip [of l] r have "CHR ''f'' \<in> set ''return layers;'' \<or> is_space CHR ''f''"
    by auto
  then show False by (simp add: is_space_def)
qed

lemma first_index_nth: "first_index P xs = Some s \<Longrightarrow> s < length xs \<and> P (xs ! s)"
  by (induction xs arbitrary: s) (auto split: if_splits)

lemma first_index_take:
  "first_index P xs = Some s \<Longrightarrow> s < n \<Longrightarrow> first_index P (take n xs @ ys) = Some s"
proof (induction xs arbitrary: s n)
  case Nil
  then show ?case by simp
next
  case (Cons x xs)
  then show ?case by (cases n) (auto split: if_splits)
qed

lemma scan_return_no_hit:
  "\<forall>cl\<in>set code. py_strip cl \<noteq> ''return layers;'' \<Longrightarrow>
   scan_return (code @ rest) i d = scan_return rest (i + length code) (d + brace_delta code)"
  by (induction code arbitrary: i d) (simp_all add: brace_delta_def Let_def add.assoc)

lemma insert_before_return_again:
  assumes run1: "insert_before_return lines func_name code_lines = (True, lines1, ws)"
    and bal: "brace_delta code_lines \<le> 0"
  obtains ret r' where "ret < length lines"
    and "py_strip (lines ! ret) = ''return layers;''"
    and "lines1 = take ret lines @ code_lines @ drop ret lines"
    and "r' \<le> length lines1"
    and "insert_before_return lines1 func_name code_lines
           = (True, take r' lines1 @ code_lines @ drop r' lines1, [])"
    and "(\<forall>cl\<in>set code_lines. py_strip cl \<noteq> ''return layers;'') \<longrightarrow>
           r' = ret + length code_lines"
proof -
  let ?P = "str_contains (''function '' @ func_name @ ''('')"
  from run1 obtain start ret where st: "first_index ?P lines = Some start"
    and sc: "scan_return (drop start lines) start 0 = Some ret"
    and l1raw: "lines1 = fold (\<lambda>(j, cl) ls. list_insert (ret + j) cl ls)
                  (zip [0..<length code_lines] code_lines) lines"
    by (auto simp: insert_before_return_def find_function_range_def
        split: option.splits)
  from first_index_nth [OF st] have sl: "start < length lines" and ps: "?P (lines ! start)"
    by simp_all
  from scan_return_bounds [OF sc] sl have b: "start \<le> ret" "ret < length lines" by auto
  from l1raw b have l1: "lines1 = take ret lines @ code_lines @ drop ret lines"
    by (simp add: insert_lines)
  then have len1: "length lines1 = length lines + length code_lines" using b by simp
  let ?k = "ret - start"
  from b have nth: "drop start lines ! ?k = lines ! ret" by simp
  from scan_return_hit [OF sc] nth
  have rl: "py_strip (lines ! ret) = ''return layers;''"
    and dep: "brace_delta (take (Suc ?k) (drop start lines)) \<le> 1"
    by simp_all
  from ps rl function_line_not_return have "start \<noteq> ret" by metis
  with b have lt: "start < ret" by simp
  have st1: "first_index ?P lines1 = Some start"
    unfolding l1 by (rule first_index_take [OF st lt])
  have dr: "drop start lines1 = take ?k (drop start lines) @ code_lines @ drop ret lines"
    unfolding l1 using b by (simp add: take_drop min_def)
  let ?D = "brace_delta (take ?k (drop start lines))"
  have sc1: "scan_return (drop start lines1) start 0
      = scan_return (code_lines @ drop ret lines) ret ?D"
    unfolding dr using scan_return_prefix [OF sc] by simp
  from b have dl: "drop ret lines = lines ! ret # drop (Suc ret) lines"
    by (simp add: Cons_nth_drop_Suc)
  from b have "take (Suc ?k) (drop start lines) = take ?k (drop start lines) @ [lines ! ret]"
    using nth by (simp add: take_Suc_conv_app_nth)
  with dep have d1: "?D + brace_delta [lines ! ret] \<le> 1" by (simp add: brace_delta_append)
  with bal have d2: "?D + brace_delta (code_lines @ [lines ! ret]) \<le> 1"
    by (simp add: brace_delta_append)
  from scan_return_found [OF rl d2, of "drop (Suc ret) lines" ret]
  obtain r' where r': "scan_return (drop start lines1) start 0 = Some r'"
    unfolding sc1 dl by blast
  from scan_return_bounds [OF r'] lt len1 b have rb: "r' \<le> length lines1" by simp
  have second: "insert_before_return lines1 func_name code_lines
      = (True, take r' lines1 @ code_lines @ drop r' lines1, [])"
    using st1 r' rb by (simp add: insert_before_return_def find_function_range_def insert_lines)
  have exact: "r' = ret + length code_lines"
    if nr: "\<forall>cl\<in>set code_lines. py_strip cl \<noteq> ''return layers;''"
  proof -
    have "scan_return (code_lines @ drop ret lines) ret ?D
        = scan_return (lines ! ret # drop (Suc ret) lines) (ret + length code_lines)
            (?D + brace_delta code_lines)"
      unfolding scan_return_no_hit [OF nr] dl ..
    also have "\<dots> = Some (ret + length code_lines)"
      using rl d2 by (simp add: brace_delta_def Let_def)
    finally show ?thesis using r' sc1 by simp
  qed
  from that [OF b(2) rl l1 rb second] exact show ?thesis by blast
qed

lemma count_char_append: "count_char c (a @ b) = count_char c a + count_char c b"
  by (simp add: count_char_def)

lemma logo_code_braces:
  "brace_delta (logo_code x_expr y_expr size_expr color_expr)
     = brace_delta [x_expr, y_expr, size_expr, color_expr]"
  by (simp add: logo_code_def brace_delta_def count_char_append) (simp add: count_char_def)

text \<open>
  C3 (as amended): \<open>insert_before_return\<close> of add-logo-to-templates.py is not
  idempotent.  When it has inserted its lines before the \<open>return layers;\<close> line
  (lines whose braces do not raise the depth, as those of the script), a second call
  on the patched lines finds the function and a \<open>return layers;\<close> line again and
  inserts the same lines once more; when none of the lines is itself a
  \<open>return layers;\<close> line, the second copy stands right after the first, before the
  same return line.
\<close>

theorem insert_before_return_inserts_again:
  "insert_before_return lines func_name code_lines = (True, lines1, ws) \<and>
   brace_delta code_lines \<le> 0 \<longrightarrow>
     (\<exists>ret < length lines.
        py_strip (lines ! ret) = ''return layers;'' \<and>
        lines1 = take ret lines @ code_lines @ drop ret lines \<and>
        (\<exists>r' \<le> length lines1.
           insert_before_return lines1 func_name code_lines
             = (True, take r' lines1 @ code_lines @ drop r' lines1, [])) \<and>
        ((\<forall>cl\<in>set code_lines. py_strip cl \<noteq> ''return layers;'') \<longrightarrow>
           insert_before_return lines1 func_name code_lines
             = (True, take ret lines @ code_lines @ code_lines @ drop ret lines, [])))"
proof
  assume h: "insert_before_return lines func_name code_lines = (True, lines1, ws) \<and>
    brace_delta code_lines \<le> 0"
  then obtain ret r' where ret: "ret < length lines"
    and rl: "py_strip (lines ! ret) = ''return layers;''"
    and l1: "lines1 = take ret lines @ code_lines @ drop ret lines"
    and rb: "r' \<le> length lines1"
    and second: "insert_before_return lines1 func_name code_lines
           = (True, take r' lines1 @ code_lines @ drop r' lines1, [])"
    and exact: "(\<forall>cl\<in>set code_lines. py_strip cl \<noteq> ''return layers;'') \<longrightarrow>
           r' = ret + length code_lines"
    using insert_before_return_again [of lines func_name code_lines lines1 ws] by blast
  have dup: "insert_before_return lines1 func_name code_lines
      = (True, take ret lines @ code_lines @ code_lines @ drop ret lines, [])"
    if "\<forall>cl\<in>set code_lines. py_strip cl \<noteq> ''return layers;''"
  proof -
    from exact that have r: "r' = ret + length code_lines" by blast
    from ret have "take r' lines1 = take ret lines @ code_lines"
      and "drop r' lines1 = drop ret lines"
      unfolding r l1 by (simp_all add: min_def)
    with second show ?thesis by simp
  qed
  from ret rl l1 rb second dup
  show "\<exists>ret < length lines.
        py_strip (lines ! ret) = ''return layers;'' \<and>
        lines1 = take ret lines @ code_lines @ drop ret lines \<and>
        (\<exists>r' \<le> length lines1.
           insert_before_return lines1 func_name code_lines
             = (True, take r' lines1 @ code_lines @ drop r' lines1, [])) \<and>
        ((\<forall>cl\<in>set code_lines. py_strip cl \<noteq> ''return layers;'') \<longrightarrow>
           insert_before_return lines1 func_name code_lines
             = (True, take ret lines @ code_lines @ code_lines @ drop ret lines, []))"
    by blast
qed

theorem insert_before_return_inserts_again_witness:
  "insert_before_return
     [''function layoutHexSplit(W: number): LayerV2[] {'', ''  return layers;'', ''}'']
     ''layoutHexSplit'' (logo_code ''W * 0.45'' ''H * 0.06'' ''H * 0.10'' ''t.frontText'')
   = (True,
      ''function layoutHexSplit(W: number): LayerV2[] {'' #
        logo_code ''W * 0.45'' ''H * 0.06'' ''H * 0.10'' ''t.frontText'' @
        [''  return layers;'', ''}''], []) \<and>
   brace_delta (logo_code ''W * 0.45'' ''H * 0.06'' ''H * 0.10'' ''t.frontText'') \<le> 0 \<and>
   list_all (\<lambda>cl. py_strip cl \<noteq> ''return layers;'')
     (logo_code ''W * 0.45'' ''H * 0.06'' ''H * 0.10'' ''t.frontText'') \<and>
   insert_before_return
       (''function layoutHexSplit(W: number): LayerV2[] {'' #
        logo_code ''W * 0.45'' ''H * 0.06'' ''H * 0.10'' ''t.frontText'' @
        [''  return layers;'', ''}''])
       ''layoutHexSplit'' (logo_code ''W * 0.45'' ''H * 0.06'' ''H * 0.10'' ''t.frontText'')
     = (True,
        ''function layoutHexSplit(W: number): LayerV2[] {'' #
          logo_code ''W * 0.45'' ''H * 0.06'' ''H * 0.10'' ''t.frontText'' @
          logo_code ''W * 0.45'' ''H * 0.06'' ''H * 0.10'' ''t.frontText'' @
          [''  return layers;'', ''}''], [])"
proof -
  let ?f = "''function layoutHexSplit(W: number): LayerV2[] {''"
  let ?lines = "[?f, ''  return layers;'', ''}'']"
  let ?code = "logo_code ''W * 0.45'' ''H * 0.06'' ''H * 0.10'' ''t.frontText''"
  let ?lines1 = "?f # ?code @ [''  return layers;'', ''}'']"
  have r1: "insert_before_return ?lines ''layoutHexSplit'' ?code = (True, ?lines1, [])"
    by code_simp
  have bd: "brace_delta ?code \<le> 0"
    unfolding logo_code_braces by (simp add: brace_delta_def count_char_def)
  have nr: "list_all (\<lambda>cl. py_strip cl \<noteq> ''return layers;'') ?code"
    by code_simp
  then have nr': "\<forall>cl\<in>set ?code. py_strip cl \<noteq> ''return layers;''"
    by (simp add: list_all_iff)
  from insert_before_return_inserts_again [of ?lines "''layoutHexSplit''" ?code ?lines1 "[]"]
    r1 bd nr'
  obtain ret where ret: "ret < length ?lines"
    and rl: "py_strip (?lines ! ret) = ''return layers;''"
    and dup: "insert_before_return ?lines1 ''layoutHexSplit'' ?code
        = (True, take ret ?lines @ ?code @ ?code @ drop ret ?lines, [])"
    by blast
  have s0: "py_strip ?f \<noteq> ''return layers;''" and s2: "py_strip ''}'' \<noteq> ''return layers;''"
    by code_simp+
  from ret have "ret = 0 \<or> ret = 1 \<or> ret = 2" by auto
  with rl s0 s2 have "ret = 1" by auto
  with dup have "insert_before_return ?lines1 ''layoutHexSplit'' ?code
        = (True, ?f # ?code @ ?code @ [''  return layers;'', ''}''], [])"
    by simp
  with r1 bd nr show ?thesis by blast
qed

text \<open>
  fix-fonts.py on a file it has patched: the first run rewrites the line, the second
  run changes nothing and writes the file back as it is.
\<close>

theorem fix_fonts_second_run_unchanged:
  "fix_fonts ''  const sansFont = FONT_STACKS.geometric;'' = (''  const sansFont = ff;'', 1) \<and>
   fix_fonts ''  const sansFont = ff;'' = (''  const sansFont = ff;'', 0)"
  by code_simp

subsection \<open>fix-cyan-tech.py\<close>

text \<open>
  \<open>s.find(sub, start)\<close> for a start that is not negative: the lowest index from
  \<open>start\<close> on at which \<open>sub\<close> occurs, or \<open>-1\<close>.
\<close>

fun find_aux :: "string \<Rightarrow> string \<Rightarrow> nat \<Rightarrow> int" where
  "find_aux sub [] i = (if sub = [] then int i else - 1)"
| "find_aux sub (c # cs) i = (if prefix sub (c # cs) then int i else find_aux sub cs (i + 1))"

definition py_find :: "string \<Rightarrow> string \<Rightarrow> nat \<Rightarrow> int" where
  "py_find s sub start = (if length s < start then - 1 else find_aux sub (drop start s) start)"

text \<open>
  A slice bound: a negative bound counts from the end, and every bound is clamped to the
  string.
\<close>

definition slice_bound :: "string \<Rightarrow> int \<Rightarrow> nat" where
  "slice_bound s i = (if i < 0 then nat (max 0 (int (length s) + i)) else min (nat i) (length s))"

text \<open>\<open>s.rfind(sub, 0, end)\<close>: the highest index at which \<open>sub\<close> occurs inside \<open>s[0:end]\<close>.\<close>

definition py_rfind :: "string \<Rightarrow> string \<Rightarrow> int \<Rightarrow> int" where
  "py_rfind s sub end =
     (let t = take (slice_bound s end) s
      in case filter (\<lambda>i. prefix sub (drop i t)) (rev [0..<Suc (length t)]) of
           [] \<Rightarrow> - 1
         | i # _ \<Rightarrow> int i)"

text \<open>\<open>s[:i]\<close> and \<open>s[i:]\<close>\<close>

definition slice_to :: "string \<Rightarrow> int \<Rightarrow> string" where
  "slice_to s i = take (slice_bound s i) s"

definition slice_from :: "string \<Rightarrow> int \<Rightarrow> string" where
  "slice_from s i = drop (slice_bound s i) s"

definition start_marker :: string where
  "start_marker =
     ''function layoutCyanTech(W: number, H: number, cfg: CardConfig, fs: FontSizes, ff: string): LayerV2[] {''"

definition end_marker :: string where
  "end_marker = ''// Register cyan-tech back layout''"

definition end_marker2 :: string where
  "end_marker2 = ''registerBackLayout('' @ [CHR 0x22] @ ''cyan-tech'' @ [CHR 0x22]"

datatype cyan_message =
    CouldNotFindFunction
  | FoundAt int int
  | Replacing int
  | Rewritten

datatype patch_result = Exited nat | Written string

text \<open>
  The script, from the text read to what it prints and to its end: \<open>exit(1)\<close> before
  the file is opened for writing, or the text written.  \<open>new_function\<close> is the
  replacement text, a literal of the script.
\<close>

definition fix_cyan_tech :: "string \<Rightarrow> string \<Rightarrow> cyan_message list \<times> patch_result" where
  "fix_cyan_tech new_function content =
     (let start_idx = py_find content start_marker 0
      in if start_idx = - 1 then ([CouldNotFindFunction], Exited 1)
         else
           (let end_idx0 = py_find content end_marker (nat start_idx);
                end_idx =
                  (if end_idx0 = - 1
                   then (let e1 = py_find content end_marker2 (nat start_idx);
                             e2 = py_rfind content [CHR 0x0A] e1
                         in py_rfind content [CHR 0x0A] e2 + 1)
                   else end_idx0)
            in ([FoundAt start_idx end_idx, Replacing (end_idx - start_idx), Rewritten],
                Written (slice_to content start_idx @ new_function @ slice_from content end_idx))))"

lemma fix_cyan_tech_no_start:
  "py_find content start_marker 0 = - 1 \<Longrightarrow>
   fix_cyan_tech new_function content = ([CouldNotFindFunction], Exited 1)"
  by (simp add: fix_cyan_tech_def)

lemma find_aux_prefix: "prefix sub s \<Longrightarrow> find_aux sub s i = int i"
  by (cases s) auto

lemma find_aux_absent: "\<not> str_contains sub s \<Longrightarrow> find_aux sub s i = - 1"
  by (induction s arbitrary: i) auto

text \<open>
  add-logo-to-templates.py does skip a template whose function or whose
  \<open>return layers;\<close> line is not found: it prints the warning and leaves the lines.
\<close>

lemma insert_before_return_skips:
  "first_index (str_contains (''function '' @ func_name @ ''('')) lines = None \<Longrightarrow>
   insert_before_return lines func_name code_lines = (False, lines, [FunctionNotFound func_name])"
  "first_index (str_contains (''function '' @ func_name @ ''('')) lines = Some start \<Longrightarrow>
   scan_return (drop start lines) start 0 = None \<Longrightarrow>
   insert_before_return lines func_name code_lines = (False, lines, [ReturnNotFound func_name])"
  by (simp_all add: insert_before_return_def find_function_range_def)

text \<open>
  C2: a script whose marker is not found prints a warning and exits or skips.
  fix-cyan-tech.py does so for its start marker, but not for its end markers: on a
  file that holds the start marker and neither end marker, the \<open>-1\<close> of the second
  \<open>find\<close> goes into \<open>rfind\<close> as a slice end, the end index becomes \<open>0\<close>, and the
  script writes the file with the new function put in front of the old text, without
  any warning.
\<close>

theorem fix_cyan_tech_missing_end_markers:
  "fix_cyan_tech new_function (start_marker @ [CHR 0x0A, CHR ''}'', CHR 0x0A]) =
     ([FoundAt 0 0, Replacing 0, Rewritten],
      Written (new_function @ start_marker @ [CHR 0x0A, CHR ''}'', CHR 0x0A]))"
proof -
  let ?c = "start_marker @ [CHR 0x0A, CHR ''}'', CHR 0x0A]"
  have s: "py_find ?c start_marker 0 = 0"
    by (simp add: py_find_def find_aux_prefix)
  have e1: "py_find ?c end_marker 0 = - 1"
    unfolding py_find_def start_marker_def end_marker_def by code_simp
  have e2: "py_find ?c end_marker2 0 = - 1"
    unfolding py_find_def start_marker_def end_marker2_def by code_simp
  have r1: "py_rfind ?c [CHR 0x0A] (- 1) = 102"
    unfolding start_marker_def by code_simp
  have r2: "py_rfind ?c [CHR 0x0A] 102 = - 1"
    unfolding start_marker_def by code_simp
  have t: "slice_to ?c 0 = []" by (simp add: slice_to_def slice_bound_def)
  have d: "slice_from ?c 0 = ?c" by (simp add: slice_from_def slice_bound_def)
  show ?thesis
    unfolding fix_cyan_tech_def Let_def s
    by (simp add: e1 e2 r1 r2 t d)
qed

definition fix_cyan_tech_run :: "string \<Rightarrow> string \<Rightarrow> (string \<rightharpoonup> string) \<Rightarrow> run" where
  "fix_cyan_tech_run linesep new_function =
     patch_script linesep adapter_file
       (\<lambda>content. case snd (fix_cyan_tech new_function content) of
                     Exited n \<Rightarrow> Inl (Exit n)
                   | Written new_content \<Rightarrow> Inr (new_content, Completed))"

subsection \<open>swap-front-back.py: \<open>main\<close>\<close>

definition adapter_path :: "string \<Rightarrow> string" where
  "adapter_path base =
     path_join (path_join (path_join (path_join base ''src'') ''lib'') ''editor'')
       ''business-card-adapter.ts''"

definition helpers_path :: "string \<Rightarrow> string" where
  "helpers_path base =
     path_join (path_join (path_join (path_join base ''src'') ''lib'') ''editor'')
       ''card-template-helpers.ts''"

text \<open>
  \<open>main\<close> reads the two files, writes the helpers file after \<open>swap_theme_colors\<close> and
  the adapter file after \<open>process_adapter\<close>.  The two text transformations are
  parameters here, each giving the new text or an exception: which files are opened
  does not depend on what they compute.  \<open>base\<close> is the directory above the script's.
\<close>

definition swap_front_back_main ::
  "string \<Rightarrow> (string \<Rightarrow> py_error + string) \<Rightarrow> (string \<Rightarrow> py_error + string) \<Rightarrow> string
     \<Rightarrow> (string \<rightharpoonup> string) \<Rightarrow> run" where
  "swap_front_back_main linesep swap_theme_colors process_adapter base fs =
     (case fs (adapter_path base) of
        None \<Rightarrow> \<lparr>trace = [], outcome = Uncaught FileNotFoundError, files_after = fs\<rparr>
      | Some adapter_raw \<Rightarrow>
          (case fs (helpers_path base) of
             None \<Rightarrow>
               \<lparr>trace = [OpenRead (adapter_path base)], outcome = Uncaught FileNotFoundError,
                files_after = fs\<rparr>
           | Some helpers_raw \<Rightarrow>
               (case swap_theme_colors (read_text helpers_raw) of
                  Inl e \<Rightarrow>
                    \<lparr>trace = [OpenRead (adapter_path base), OpenRead (helpers_path base)],
                     outcome = Uncaught e, files_after = fs\<rparr>
                | Inr new_helpers \<Rightarrow>
                    (case process_adapter (read_text adapter_raw) of
                       Inl e \<Rightarrow>
                         \<lparr>trace = [OpenRead (adapter_path base), OpenRead (helpers_path base),
                                   OpenWrite (helpers_path base)],
                          outcome = Uncaught e,
                          files_after = fs(helpers_path base \<mapsto> write_text linesep new_helpers)\<rparr>
                     | Inr new_adapter \<Rightarrow>
                         \<lparr>trace = [OpenRead (adapter_path base), OpenRead (helpers_path base),
                                   OpenWrite (helpers_path base), OpenWrite (adapter_path base)],
                          outcome = Completed,
                          files_after = fs(helpers_path base \<mapsto> write_text linesep new_helpers,
                                           adapter_path base \<mapsto> write_text linesep new_adapter)\<rparr>))))"

subsection \<open>The scripts of the repository and the files they open\<close>

datatype script =
    AddLogoToTemplates | Analyze6ed0V2 | Analyze6ed0V3 | Analyze6ed0
  | Analyze89fbDeep | Analyze89fbV2 | Analyze89fbV3 | Analyze89fbV4
  | AnalyzeBusinessCards
  | AnalyzeCardDeep | AnalyzeCardDetail | AnalyzeCardElements | AnalyzeCardFinal
  | FixCleanAccent | FixContactOverflow | FixCorporateChevron | FixCyanTechBack
  | FixCyanTech | FixFfErrors | FixFontStacks | FixFonts | FixLogoCompany
  | FixWaveGradient | FixZigzagOverlay
  | RewriteClassicTemplatesV2 | RewriteClassicTemplates | RewriteCreativeTemplates
  | RewriteLuxuryTemplates | RewriteMinimalTemplates | RewriteModernTemplates
  | SwapFrontBack | VerifyModern | VerifyTemplates

text \<open>
  What a run depends on besides the files: the line separator of the platform, the
  directory of the script, the first command-line argument if there is one, and what
  the computations between the opens of a script give.  For a script whose edits are
  not embedded above, \<open>edit_of\<close> is the edit it makes on the text read: a stop before the
  write, or the text written and the status the script ends with.  For a script that
  only reads, \<open>finish_of\<close> is the status it ends with after its open.
\<close>

record setting =
  os_linesep :: string
  script_dir :: string
  project_root :: string
  argv1 :: "string option"
  edit_of :: "script \<Rightarrow> string \<Rightarrow> status + string \<times> status"
  finish_of :: "script \<Rightarrow> string \<Rightarrow> status"
  theme_edit :: "string \<Rightarrow> py_error + string"
  adapter_edit :: "string \<Rightarrow> py_error + string"
  cyan_function :: string
  the_world :: world

text \<open>A script that opens one file for reading and none for writing.\<close>

definition read_only_script :: "string \<Rightarrow> (string \<Rightarrow> status) \<Rightarrow> (string \<rightharpoonup> string) \<Rightarrow> run" where
  "read_only_script path finish fs =
     (case fs path of
        None \<Rightarrow> \<lparr>trace = [], outcome = Uncaught FileNotFoundError, files_after = fs\<rparr>
      | Some raw \<Rightarrow> \<lparr>trace = [OpenRead path], outcome = finish raw, files_after = fs\<rparr>)"

text \<open>
  rewrite-luxury-templates.py reads its file once more after the write, to verify it.
\<close>

definition patch_and_verify_script ::
  "string \<Rightarrow> string \<Rightarrow> (string \<Rightarrow> status + string \<times> status) \<Rightarrow> (string \<rightharpoonup> string) \<Rightarrow> run" where
  "patch_and_verify_script linesep path edit fs =
     (case fs path of
        None \<Rightarrow> \<lparr>trace = [], outcome = Uncaught FileNotFoundError, files_after = fs\<rparr>
      | Some raw \<Rightarrow>
          (case edit (read_text raw) of
             Inl stop \<Rightarrow> \<lparr>trace = [OpenRead path], outcome = stop, files_after = fs\<rparr>
           | Inr (new_text, final) \<Rightarrow>
               \<lparr>trace = [OpenRead path, OpenWrite path, OpenRead path], outcome = final,
                files_after = fs(path \<mapsto> write_text linesep new_text)\<rparr>))"

text \<open>The paths the scripts hold.\<close>

definition examples_dir :: string where
  "examples_dir = ''d:'' @ [CHR 0x5C] @ ''dramac-ai-suite'' @ [CHR 0x5C] @ ''business-card-examples''"

definition image_6ed0 :: string where
  "image_6ed0 = examples_dir @ [CHR 0x5C] @ ''6ed0ec5d9a915d54a12b7bd525d0a382.jpg''"

definition image_89fb :: string where
  "image_89fb = examples_dir @ [CHR 0x5C] @ ''89fb07c3dc093631d699d53a56173205.jpg''"

definition relative_adapter :: string where
  "relative_adapter = ''src/lib/editor/business-card-adapter.ts''"

definition joined_adapter :: "string \<Rightarrow> string" where
  "joined_adapter dir =
     path_join (path_join (path_join (path_join (path_join dir ''..'') ''src'') ''lib'') ''editor'')
       ''business-card-adapter.ts''"

text \<open>
  The analysis scripts that take the image name from \<open>sys.argv[1]\<close>: without the
  argument \<open>sys.argv[1]\<close> raises before any file is opened.
\<close>

definition argv_image_script :: "setting \<Rightarrow> script \<Rightarrow> (string \<rightharpoonup> string) \<Rightarrow> run" where
  "argv_image_script e s fs =
     (case argv1 e of
        None \<Rightarrow> \<lparr>trace = [], outcome = Uncaught IndexError, files_after = fs\<rparr>
      | Some name \<Rightarrow> read_only_script (path_join examples_dir name) (finish_of e s) fs)"

text \<open>
  The run of every script of the repository, by the files it opens: each script with the
  path it holds, in the order of its \<open>open\<close>, \<open>Image.open\<close>, \<open>read_text\<close> and
  \<open>write_text\<close> calls.  analyze-card-detail.py without an argument lists the directory
  and opens no file.
\<close>

fun script_run :: "setting \<Rightarrow> script \<Rightarrow> (string \<rightharpoonup> string) \<Rightarrow> run" where
  "script_run e AddLogoToTemplates fs =
     patch_script (os_linesep e) adapter_file (edit_of e AddLogoToTemplates) fs"
| "script_run e Analyze6ed0V2 fs = read_only_script image_6ed0 (finish_of e Analyze6ed0V2) fs"
| "script_run e Analyze6ed0V3 fs = read_only_script image_6ed0 (finish_of e Analyze6ed0V3) fs"
| "script_run e Analyze6ed0 fs = read_only_script image_6ed0 (finish_of e Analyze6ed0) fs"
| "script_run e Analyze89fbDeep fs = read_only_script image_89fb (finish_of e Analyze89fbDeep) fs"
| "script_run e Analyze89fbV2 fs = read_only_script image_89fb (finish_of e Analyze89fbV2) fs"
| "script_run e Analyze89fbV3 fs = read_only_script image_89fb (finish_of e Analyze89fbV3) fs"
| "script_run e Analyze89fbV4 fs = read_only_script image_89fb (finish_of e Analyze89fbV4) fs"
| "script_run e AnalyzeBusinessCards fs =
     analyze_business_cards (project_root e) ((the_world e)\<lparr>files := fs\<rparr>)"
| "script_run e AnalyzeCardDeep fs = argv_image_script e AnalyzeCardDeep fs"
| "script_run e AnalyzeCardDetail fs =
     (case argv1 e of
        None \<Rightarrow> \<lparr>trace = [], outcome = finish_of e AnalyzeCardDetail [], files_after = fs\<rparr>
      | Some name \<Rightarrow>
          read_only_script (path_join examples_dir name) (finish_of e AnalyzeCardDetail) fs)"
| "script_run e AnalyzeCardElements fs = argv_image_script e AnalyzeCardElements fs"
| "script_run e AnalyzeCardFinal fs = argv_image_script e AnalyzeCardFinal fs"
| "script_run e FixCleanAccent fs =
     patch_script (os_linesep e) adapter_file (edit_of e FixCleanAccent) fs"
| "script_run e FixContactOverflow fs =
     patch_script (os_linesep e) adapter_file (edit_of e FixContactOverflow) fs"
| "script_run e FixCorporateChevron fs =
     patch_script (os_linesep e) adapter_file (edit_of e FixCorporateChevron) fs"
| "script_run e FixCyanTechBack fs =
     patch_script (os_linesep e) adapter_file (edit_of e FixCyanTechBack) fs"
| "script_run e FixCyanTech fs = fix_cyan_tech_run (os_linesep e) (cyan_function e) fs"
| "script_run e FixFfErrors fs = fix_ff_errors_run (os_linesep e) fs"
| "script_run e FixFontStacks fs =
     patch_script (os_linesep e) adapter_file (edit_of e FixFontStacks) fs"
| "script_run e FixFonts fs = fix_fonts_run (os_linesep e) fs"
| "script_run e FixLogoCompany fs =
     patch_script (os_linesep e) adapter_file (edit_of e FixLogoCompany) fs"
| "script_run e FixWaveGradient fs =
     patch_script (os_linesep e) adapter_file (edit_of e FixWaveGradient) fs"
| "script_run e FixZigzagOverlay fs =
     patch_script (os_linesep e) adapter_file (edit_of e FixZigzagOverlay) fs"
| "script_run e RewriteClassicTemplatesV2 fs =
     patch_script (os_linesep e) adapter_file (edit_of e RewriteClassicTemplatesV2) fs"
| "script_run e RewriteClassicTemplates fs =
     patch_script (os_linesep e) adapter_file (edit_of e RewriteClassicTemplates) fs"
| "script_run e RewriteCreativeTemplates fs =
     patch_script (os_linesep e) (joined_adapter (script_dir e))
       (edit_of e RewriteCreativeTemplates) fs"
| "script_run e RewriteLuxuryTemplates fs =
     patch_and_verify_script (os_linesep e) relative_adapter
       (edit_of e RewriteLuxuryTemplates) fs"
| "script_run e RewriteMinimalTemplates fs =
     patch_script (os_linesep e) (joined_adapter (script_dir e))
       (edit_of e RewriteMinimalTemplates) fs"
| "script_run e RewriteModernTemplates fs =
     patch_script (os_linesep e) adapter_file (edit_of e RewriteModernTemplates) fs"
| "script_run e SwapFrontBack fs =
     swap_front_back_main (os_linesep e) (theme_edit e) (adapter_edit e) (project_root e) fs"
| "script_run e VerifyModern fs =
     read_only_script adapter_file (\<lambda>raw. finish_of e VerifyModern (read_text raw)) fs"
| "script_run e VerifyTemplates fs =
     read_only_script relative_adapter (\<lambda>raw. finish_of e VerifyTemplates (read_text raw)) fs"

subsection \<open>Files written and files read\<close>

text \<open>
  Every file opened for writing has been opened for reading before, in the same run;
  \<open>seen\<close> holds the paths read so far.
\<close>

fun writes_follow_reads :: "string list \<Rightarrow> event list \<Rightarrow> bool" where
  "writes_follow_reads seen [] = True"
| "writes_follow_reads seen (OpenRead p # es) = writes_follow_reads (p # seen) es"
| "writes_follow_reads seen (OpenWrite p # es) = (p \<in> set seen \<and> writes_follow_reads seen es)"
| "writes_follow_reads seen (e # es) = writes_follow_reads seen es"

lemma trace_emit': "trace (emit evs r) = evs @ trace r"
  by (simp add: emit_def)

lemma analyze_loop_writes:
  "OpenWrite p \<in> set (trace (analyze_loop root w n i imgs calls fs)) \<Longrightarrow>
   p \<in> output_file root ` set imgs"
proof (induction imgs arbitrary: i calls fs)
  case Nil
  then show ?case by simp
next
  case (Cons f rest)
  then show ?case
    by (auto simp: trace_emit' Let_def split: option.splits sum.splits list.splits if_splits)
qed

lemma analyze_business_cards_writes:
  "OpenWrite p \<in> set (trace (analyze_business_cards root w)) \<Longrightarrow>
   p \<in> output_file root ` set images"
  by (auto simp: analyze_business_cards_def trace_emit' split: sum.splits if_splits
      dest: analyze_loop_writes)

lemma patch_script_writes:
  "writes_follow_reads [] (trace (patch_script linesep path edit fs))"
  by (simp add: patch_script_def split: option.splits sum.splits prod.splits)

lemma patch_and_verify_script_writes:
  "writes_follow_reads [] (trace (patch_and_verify_script linesep path edit fs))"
  by (simp add: patch_and_verify_script_def split: option.splits sum.splits prod.splits)

lemma read_only_script_writes:
  "writes_follow_reads [] (trace (read_only_script path finish fs))"
  by (simp add: read_only_script_def split: option.splits)

lemma argv_image_script_writes:
  "writes_follow_reads [] (trace (argv_image_script e s fs))"
  by (simp add: argv_image_script_def read_only_script_writes split: option.splits)

lemma swap_front_back_main_writes:
  "writes_follow_reads []
     (trace (swap_front_back_main linesep swap_theme_colors process_adapter base fs))"
  by (simp add: swap_front_back_main_def split: option.splits sum.splits)

text \<open>
  C4 (as amended): every script of the repository but analyze-business-cards.py opens
  for writing only a file it has opened for reading before, in the same run;
  analyze-business-cards.py writes its reports, one new Markdown file for an image of
  its list, which it has not read, and opens no other file for writing.
\<close>

theorem scripts_write_what_they_read:
  "(s \<noteq> AnalyzeBusinessCards \<longrightarrow> writes_follow_reads [] (trace (script_run e s fs))) \<and>
   (OpenWrite p \<in> set (trace (script_run e AnalyzeBusinessCards fs)) \<longrightarrow>
      p \<in> output_file (project_root e) ` set images)"
proof (intro conjI impI)
  show "writes_follow_reads [] (trace (script_run e s fs))" if "s \<noteq> AnalyzeBusinessCards"
    using that
    by (cases s)
       (simp_all add: patch_script_writes patch_and_verify_script_writes
          read_only_script_writes argv_image_script_writes swap_front_back_main_writes
          fix_fonts_run_def fix_ff_errors_run_def fix_cyan_tech_run_def
          split: option.splits)
  show "p \<in> output_file (project_root e) ` set images"
    if "OpenWrite p \<in> set (trace (script_run e AnalyzeBusinessCards fs))"
    using that by (simp add: analyze_business_cards_writes)
qed

text \<open>A run with the key and the first image only, the API answering.\<close>

definition first_image_world :: world where
  "first_image_world =
     \<lparr>files = [''/p/.env.local'' \<mapsto> ''ANTHROPIC_API_KEY=k'',
                ''/p/business-card-examples/d470b54b4667bbb67204e858d6f0a01f.jpg'' \<mapsto> ''JFIF''],
      can_write = (\<lambda>p. True), api = (\<lambda>k d. Inr [''fine''])\<rparr>"

lemma first_image_trace:
  "trace (analyze_business_cards ''/p'' first_image_world) =
     [OpenRead ''/p/.env.local'',
      Print (Analyzing 1 9 ''d470b54b4667bbb67204e858d6f0a01f.jpg''),
      OpenRead ''/p/business-card-examples/d470b54b4667bbb67204e858d6f0a01f.jpg'',
      ApiCall ''d470b54b4667bbb67204e858d6f0a01f.jpg'' (Inr [''fine'']),
      OpenWrite ''/p/business-card-examples/analysis/d470b54b4667bbb67204e858d6f0a01f.md'',
      Print (Analysis ''fine''),
      Print (Saved ''/p/business-card-examples/analysis/d470b54b4667bbb67204e858d6f0a01f.md''),
      Print (Analyzing 2 9 ''d528f0b618c11009c08bd2a93beb890e.jpg'')]"
proof -
  have p: "env_path ''/p'' = ''/p/.env.local''"
    by (simp add: env_path_def path_join_def suffix_def)
  have e: "env_line ''ANTHROPIC_API_KEY=k'' = Some (''ANTHROPIC_API_KEY'', ''k'')"
    by code_simp
  have i1: "image_path ''/p'' ''d470b54b4667bbb67204e858d6f0a01f.jpg''
      = ''/p/business-card-examples/d470b54b4667bbb67204e858d6f0a01f.jpg''"
    and i2: "image_path ''/p'' ''d528f0b618c11009c08bd2a93beb890e.jpg''
      = ''/p/business-card-examples/d528f0b618c11009c08bd2a93beb890e.jpg''"
    by (simp_all add: image_path_def base_dir_def path_join_def suffix_def)
  have sx: "splitext_root ''d470b54b4667bbb67204e858d6f0a01f.jpg''
      = ''d470b54b4667bbb67204e858d6f0a01f''"
    by code_simp
  have o1: "output_file ''/p'' ''d470b54b4667bbb67204e858d6f0a01f.jpg''
      = ''/p/business-card-examples/analysis/d470b54b4667bbb67204e858d6f0a01f.md''"
    by (simp add: output_file_def output_dir_def base_dir_def sx path_join_def suffix_def)
  show ?thesis
    by (simp add: analyze_business_cards_def load_env_def text_lines_def read_text_def
        first_image_world_def p e images_def i1 i2 o1 emit_def)
qed

text \<open>The report of the first image is opened for writing and was never read.\<close>

theorem report_written_without_read:
  "\<not> writes_follow_reads [] (trace (analyze_business_cards ''/p'' first_image_world))"
  unfolding first_image_trace by simp

text \<open>A setting in which the edits not embedded here leave the text as it is.\<close>

definition plain_setting :: setting where
  "plain_setting =
     \<lparr>os_linesep = [CHR 0x0D, CHR 0x0A], script_dir = ''/p/scripts'', project_root = ''/p'',
      argv1 = None, edit_of = (\<lambda>s content. Inr (content, Completed)),
      finish_of = (\<lambda>s raw. Completed), theme_edit = Inr, adapter_edit = Inr,
      cyan_function = [], the_world = first_image_world\<rparr>"

theorem scripts_write_what_they_read_witness:
  "FixContactOverflow \<noteq> AnalyzeBusinessCards \<and>
   trace (script_run plain_setting FixContactOverflow [adapter_file \<mapsto> ''a'' @ [CHR 0x0D] @ ''b''])
     = [OpenRead adapter_file, OpenWrite adapter_file] \<and>
   files_after (script_run plain_setting FixContactOverflow [adapter_file \<mapsto> ''a'' @ [CHR 0x0D] @ ''b''])
     = [adapter_file \<mapsto> ''a'' @ [CHR 0x0D, CHR 0x0A] @ ''b''] \<and>
   writes_follow_reads []
     (trace (script_run plain_setting FixContactOverflow [adapter_file \<mapsto> ''a'' @ [CHR 0x0D] @ ''b''])) \<and>
   OpenWrite ''/p/business-card-examples/analysis/d470b54b4667bbb67204e858d6f0a01f.md''
     \<in> set (trace (script_run plain_setting AnalyzeBusinessCards (files first_image_world))) \<and>
   ''/p/business-card-examples/analysis/d470b54b4667bbb67204e858d6f0a01f.md''
     \<in> output_file ''/p'' ` set images"
proof -
  let ?fs = "[adapter_file \<mapsto> ''a'' @ [CHR 0x0D] @ ''b'']"
  let ?p = "''/p/business-card-examples/analysis/d470b54b4667bbb67204e858d6f0a01f.md''"
  have ne: "FixContactOverflow \<noteq> AnalyzeBusinessCards" by simp
  have t: "trace (script_run plain_setting FixContactOverflow ?fs)
      = [OpenRead adapter_file, OpenWrite adapter_file]"
    by (simp add: plain_setting_def patch_script_def)
  have f: "files_after (script_run plain_setting FixContactOverflow ?fs)
      = [adapter_file \<mapsto> ''a'' @ [CHR 0x0D, CHR 0x0A] @ ''b'']"
    by (simp add: plain_setting_def patch_script_def read_text_def write_text_def)
  have w: "script_run plain_setting AnalyzeBusinessCards (files first_image_world)
      = analyze_business_cards ''/p'' first_image_world"
    by (simp add: plain_setting_def)
  have m: "OpenWrite ?p
      \<in> set (trace (script_run plain_setting AnalyzeBusinessCards (files first_image_world)))"
    unfolding w first_image_trace by simp
  have pr: "project_root plain_setting = ''/p''" by (simp add: plain_setting_def)
  from scripts_write_what_they_read [of FixContactOverflow plain_setting ?fs] ne
  have a: "writes_follow_reads [] (trace (script_run plain_setting FixContactOverflow ?fs))"
    by blast
  from scripts_write_what_they_read
         [of AnalyzeBusinessCards plain_setting "files first_image_world" ?p] m
  have b: "?p \<in> output_file ''/p'' ` set images"
    unfolding pr by blast
  from ne t f a m b show ?thesis by blast
qed

subsection \<open>swap-front-back.py: \<open>find_matching_brace\<close>\<close>

text \<open>
  The loops of the function, each from the position it starts at to the position it
  leaves.  First the loop over a quoted string (also used for a template literal nested
  in a template expression): up to the closing quote, a backslash skipping a character.
\<close>

function skip_quoted :: "string \<Rightarrow> char \<Rightarrow> nat \<Rightarrow> nat" where
  "skip_quoted content quote pos =
     (if pos < length content \<and> content ! pos \<noteq> quote
      then skip_quoted content quote (if content ! pos = CHR 0x5C then pos + 2 else pos + 1)
      else pos)"
  by pat_completeness auto
termination
  by (relation "measure (\<lambda>(content, quote, pos). length content - pos)") auto

declare skip_quoted.simps [simp del]

lemma skip_quoted_ge: "pos \<le> skip_quoted content quote pos"
proof (induction content quote pos rule: skip_quoted.induct)
  case (1 content quote pos)
  show ?case
  proof (cases "pos < length content \<and> content ! pos \<noteq> quote")
    case True
    let ?next = "if content ! pos = CHR 0x5C then pos + 2 else pos + 1"
    from True have eq: "skip_quoted content quote pos = skip_quoted content quote ?next"
      by (subst skip_quoted.simps) simp
    from 1 True have "?next \<le> skip_quoted content quote ?next" by simp
    moreover have "pos \<le> ?next" by simp
    ultimately show ?thesis unfolding eq by (rule order_trans [rotated])
  next
    case False
    then show ?thesis by (subst skip_quoted.simps) auto
  qed
qed

text \<open>
  The loop over a template expression \<open>${...}\<close>, with its own depth \<open>td\<close>: braces are
  counted and a nested template literal is skipped up to the next backtick.
\<close>

function template_expr :: "string \<Rightarrow> nat \<Rightarrow> nat \<Rightarrow> nat" where
  "template_expr content td pos =
     (if 0 < td \<and> pos < length content
      then (if content ! pos = CHR ''{'' then template_expr content (td + 1) (pos + 1)
            else if content ! pos = CHR ''}'' then template_expr content (td - 1) (pos + 1)
            else if content ! pos = CHR 0x60
              then template_expr content td (skip_quoted content (CHR 0x60) (pos + 1) + 1)
            else template_expr content td (pos + 1))
      else pos)"
  by pat_completeness auto
termination
proof (relation "measure (\<lambda>(content, td, pos). length content - pos)", goal_cases)
  case (4 content td pos)
  then show ?case
    using skip_quoted_ge [of "pos + 1" content "CHR 0x60"] by auto
qed auto

declare template_expr.simps [simp del]

lemma template_expr_ge: "pos \<le> template_expr content td pos"
proof (induction content td pos rule: template_expr.induct)
  case (1 content td pos)
  show ?case
  proof (cases "0 < td \<and> pos < length content")
    case True
    note sq = skip_quoted_ge [of "pos + 1" content "CHR 0x60"]
    show ?thesis
    proof (cases "content ! pos = CHR ''{''")
      case a: True
      with True 1 show ?thesis by (subst template_expr.simps) (simp add: Suc_leD)
    next
      case na: False
      show ?thesis
      proof (cases "content ! pos = CHR ''}''")
        case b: True
        with True na 1 show ?thesis by (subst template_expr.simps) (simp add: Suc_leD)
      next
        case nb: False
        show ?thesis
        proof (cases "content ! pos = CHR 0x60")
          case c: True
          with True na nb 1
          have "skip_quoted content (CHR 0x60) (pos + 1) + 1
              \<le> template_expr content td (skip_quoted content (CHR 0x60) (pos + 1) + 1)"
            by simp
          with sq have "pos \<le> template_expr content td (skip_quoted content (CHR 0x60) (pos + 1) + 1)"
            by simp
          with True na nb c show ?thesis by (subst template_expr.simps) simp
        next
          case nc: False
          with True na nb 1 show ?thesis by (subst template_expr.simps) (simp add: Suc_leD)
        qed
      qed
    qed
  next
    case False
    then show ?thesis by (subst template_expr.simps) auto
  qed
qed

text \<open>
  The loop over a template literal: up to the closing backtick, a backslash skipping a
  character and \<open>${\<close> starting a template expression.
\<close>

function skip_template :: "string \<Rightarrow> nat \<Rightarrow> nat" where
  "skip_template content pos =
     (if pos < length content \<and> content ! pos \<noteq> CHR 0x60
      then (if content ! pos = CHR 0x5C then skip_template content (pos + 2)
            else if content ! pos = CHR ''$'' \<and> pos + 1 < length content \<and>
                    content ! (pos + 1) = CHR ''{''
              then skip_template content (template_expr content 1 (pos + 2))
            else skip_template content (pos + 1))
      else pos)"
  by pat_completeness auto
termination
proof (relation "measure (\<lambda>(content, pos). length content - pos)", goal_cases)
  case (3 content pos)
  then show ?case
    using template_expr_ge [of "pos + 2" content 1] by auto
qed auto

declare skip_template.simps [simp del]

lemma skip_template_ge: "pos \<le> skip_template content pos"
proof (induction content pos rule: skip_template.induct)
  case (1 content pos)
  show ?case
  proof (cases "pos < length content \<and> content ! pos \<noteq> CHR 0x60")
    case True
    note te = template_expr_ge [of "pos + 2" content 1]
    show ?thesis
    proof (cases "content ! pos = CHR 0x5C")
      case a: True
      with True 1 have "pos + 2 \<le> skip_template content (pos + 2)" by simp
      with True a show ?thesis by (subst skip_template.simps) simp
    next
      case na: False
      show ?thesis
      proof (cases "content ! pos = CHR ''$'' \<and> pos + 1 < length content \<and>
                    content ! (pos + 1) = CHR ''{''")
        case b: True
        with True na 1 have "template_expr content 1 (pos + 2)
            \<le> skip_template content (template_expr content 1 (pos + 2))" by simp
        with te have "pos \<le> skip_template content (template_expr content 1 (pos + 2))" by simp
        with True na b show ?thesis by (subst skip_template.simps) simp
      next
        case nb: False
        with True na 1 have "pos + 1 \<le> skip_template content (pos + 1)" by simp
        with True na nb show ?thesis by (subst skip_template.simps) auto
      qed
    qed
  next
    case False
    then show ?thesis by (subst skip_template.simps) auto
  qed
qed

text \<open>The loops over a line comment and over a block comment.\<close>

function skip_line_comment :: "string \<Rightarrow> nat \<Rightarrow> nat" where
  "skip_line_comment content pos =
     (if pos < length content \<and> content ! pos \<noteq> CHR 0x0A
      then skip_line_comment content (pos + 1) else pos)"
  by pat_completeness auto
termination
  by (relation "measure (\<lambda>(content, pos). length content - pos)") auto

declare skip_line_comment.simps [simp del]

function skip_block_comment :: "string \<Rightarrow> nat \<Rightarrow> nat" where
  "skip_block_comment content pos =
     (if pos + 1 < length content \<and>
         \<not> (content ! pos = CHR ''*'' \<and> content ! (pos + 1) = CHR ''/'')
      then skip_block_comment content (pos + 1) else pos)"
  by pat_completeness auto
termination
  by (relation "measure (\<lambda>(content, pos). length content - pos)") auto

declare skip_block_comment.simps [simp del]

lemma skip_line_comment_ge: "pos \<le> skip_line_comment content pos"
proof (induction content pos rule: skip_line_comment.induct)
  case (1 content pos)
  show ?case
  proof (cases "pos < length content \<and> content ! pos \<noteq> CHR 0x0A")
    case True
    with 1 have "pos + 1 \<le> skip_line_comment content (pos + 1)" by simp
    with True show ?thesis by (subst skip_line_comment.simps) simp
  next
    case False
    then show ?thesis by (subst skip_line_comment.simps) auto
  qed
qed

lemma skip_block_comment_ge: "pos \<le> skip_block_comment content pos"
proof (induction content pos rule: skip_block_comment.induct)
  case (1 content pos)
  show ?case
  proof (cases "pos + 1 < length content \<and>
         \<not> (content ! pos = CHR ''*'' \<and> content ! (pos + 1) = CHR ''/'')")
    case True
    with 1 have "pos + 1 \<le> skip_block_comment content (pos + 1)" by simp
    with True show ?thesis by (subst skip_block_comment.simps) auto
  next
    case False
    then show ?thesis by (subst skip_block_comment.simps) auto
  qed
qed

text \<open>
  The main loop, with the depth and the position.  In each branch the position is
  moved by the branch and then by the \<open>pos += 1\<close> that ends the loop body.
\<close>

function brace_loop :: "string \<Rightarrow> nat \<Rightarrow> nat \<Rightarrow> nat" where
  "brace_loop content depth pos =
     (if 0 < depth \<and> pos < length content
      then (let ch = content ! pos
            in if ch = CHR ''{'' then brace_loop content (depth + 1) (pos + 1)
               else if ch = CHR ''}'' then brace_loop content (depth - 1) (pos + 1)
               else if ch = CHR 0x22 \<or> ch = CHR 0x27
                 then brace_loop content depth (skip_quoted content ch (pos + 1) + 1)
               else if ch = CHR 0x60
                 then brace_loop content depth (skip_template content (pos + 1) + 1)
               else if ch = CHR ''/'' \<and> pos + 1 < length content
                 then (if content ! (pos + 1) = CHR ''/''
                       then brace_loop content depth (skip_line_comment content pos + 1)
                       else if content ! (pos + 1) = CHR ''*''
                         then brace_loop content depth
                                (skip_block_comment content (pos + 2) + 1 + 1)
                       else brace_loop content depth (pos + 1))
               else brace_loop content depth (pos + 1))
      else pos)"
  by pat_completeness auto
termination
proof (relation "measure (\<lambda>(content, depth, pos). length content - pos)", goal_cases)
  case (4 content depth pos ch)
  then show ?case
    using skip_quoted_ge [of "pos + 1" content ch] by auto
next
  case (5 content depth pos ch)
  then show ?case
    using skip_template_ge [of "pos + 1" content] by auto
next
  case (6 content depth pos ch)
  then show ?case
    using skip_line_comment_ge [of pos content] by auto
next
  case (7 content depth pos ch)
  then show ?case
    using skip_block_comment_ge [of "pos + 2" content] by auto
qed auto

declare brace_loop.simps [simp del]

text \<open>
  \<open>find_matching_brace(content, open_pos)\<close> for \<open>open_pos \<ge> 0\<close>: the \<open>assert\<close> on the
  character at \<open>open_pos\<close>, then the loop from depth 1, and \<open>pos - 1\<close> returned.
\<close>

definition find_matching_brace :: "string \<Rightarrow> nat \<Rightarrow> py_error + nat" where
  "find_matching_brace content open_pos =
     (if length content \<le> open_pos then Inl IndexError
      else if content ! open_pos \<noteq> CHR ''{'' then Inl AssertionError
      else Inr (brace_loop content 1 (open_pos + 1) - 1))"

subsection \<open>The matching brace\<close>

text \<open>
  The brace that matches, read off the lexical structure of the text: a scan by
  character that knows whether it is in code, in a quoted string, in a comment or in the
  text of a template literal.  The stack holds the open braces of code and the open
  template expressions; a template expression is code again, with its own strings,
  comments and template literals.  The opening brace is matched by the closing brace
  that empties the stack.
\<close>

datatype frame = Brace | Expr

datatype lex = Code | Quoted char | LineComment | BlockComment | Template

fun js_match :: "lex \<Rightarrow> frame list \<Rightarrow> nat \<Rightarrow> string \<Rightarrow> nat option" where
  "js_match st stack i [] = None"
| "js_match Code stack i (c # cs) =
     (if c = CHR ''{'' then js_match Code (Brace # stack) (i + 1) cs
      else if c = CHR ''}'' then
        (case stack of
           [] \<Rightarrow> None
         | [Brace] \<Rightarrow> Some i
         | Brace # rest \<Rightarrow> js_match Code rest (i + 1) cs
         | Expr # rest \<Rightarrow> js_match Template rest (i + 1) cs)
      else if c = CHR 0x22 \<or> c = CHR 0x27 then js_match (Quoted c) stack (i + 1) cs
      else if c = CHR 0x60 then js_match Template stack (i + 1) cs
      else if c = CHR ''/'' then
        (case cs of
           [] \<Rightarrow> None
         | d # cs' \<Rightarrow>
             if d = CHR ''/'' then js_match LineComment stack (i + 2) cs'
             else if d = CHR ''*'' then js_match BlockComment stack (i + 2) cs'
             else js_match Code stack (i + 1) cs)
      else js_match Code stack (i + 1) cs)"
| "js_match (Quoted q) stack i (c # cs) =
     (if c = CHR 0x5C then
        (case cs of [] \<Rightarrow> None | d # cs' \<Rightarrow> js_match (Quoted q) stack (i + 2) cs')
      else if c = q then js_match Code stack (i + 1) cs
      else js_match (Quoted q) stack (i + 1) cs)"
| "js_match LineComment stack i (c # cs) =
     (if c = CHR 0x0A then js_match Code stack (i + 1) cs
      else js_match LineComment stack (i + 1) cs)"
| "js_match BlockComment stack i (c # cs) =
     (if c = CHR ''*'' then
        (case cs of
           [] \<Rightarrow> None
         | d # cs' \<Rightarrow>
             if d = CHR ''/'' then js_match Code stack (i + 2) cs'
             else js_match BlockComment stack (i + 1) cs)
      else js_match BlockComment stack (i + 1) cs)"
| "js_match Template stack i (c # cs) =
     (if c = CHR 0x5C then
        (case cs of [] \<Rightarrow> None | d # cs' \<Rightarrow> js_match Template stack (i + 2) cs')
      else if c = CHR 0x60 then js_match Code stack (i + 1) cs
      else if c = CHR ''$'' then
        (case cs of
           [] \<Rightarrow> None
         | d # cs' \<Rightarrow>
             if d = CHR ''{'' then js_match Code (Expr # stack) (i + 2) cs'
             else js_match Template stack (i + 1) cs)
      else js_match Template stack (i + 1) cs)"

definition matching_brace :: "string \<Rightarrow> nat \<Rightarrow> nat option" where
  "matching_brace s p =
     (if p < length s \<and> s ! p = CHR ''{''
      then js_match Code [Brace] (p + 1) (drop (p + 1) s) else None)"

text \<open>
  The loops over a string and over the comments leave where the scan by character goes
  back to code.
\<close>

lemma drop_nth_Cons: "p < length xs \<Longrightarrow> drop p xs = xs ! p # drop (Suc p) xs"
  by (simp add: Cons_nth_drop_Suc)

lemma quoted_scan:
  assumes q: "q \<noteq> CHR 0x5C"
  shows "js_match (Quoted q) stack p (drop p content) =
         (if skip_quoted content q p < length content
          then js_match Code stack (skip_quoted content q p + 1)
                 (drop (skip_quoted content q p + 1) content)
          else None)"
  using q
proof (induction content q p rule: skip_quoted.induct)
  case (1 content quote pos)
  show ?case
  proof (cases "pos < length content")
    case False
    then have "skip_quoted content quote pos = pos" by (subst skip_quoted.simps) simp
    with False show ?thesis by simp
  next
    case True
    note d = drop_nth_Cons [OF True]
    show ?thesis
    proof (cases "content ! pos = quote")
      case e: True
      with True have s: "skip_quoted content quote pos = pos" by (subst skip_quoted.simps) simp
      from e True "1.prems" show ?thesis unfolding s d by simp
    next
      case ne: False
      show ?thesis
      proof (cases "content ! pos = CHR 0x5C")
        case b: True
        from True ne b have s: "skip_quoted content quote pos = skip_quoted content quote (pos + 2)"
          by (subst skip_quoted.simps) simp
        from "1.IH" True ne b "1.prems"
        have ih: "js_match (Quoted quote) stack (pos + 2) (drop (pos + 2) content) =
          (if skip_quoted content quote (pos + 2) < length content
           then js_match Code stack (skip_quoted content quote (pos + 2) + 1)
                  (drop (skip_quoted content quote (pos + 2) + 1) content)
           else None)"
          by simp
        show ?thesis
        proof (cases "Suc pos < length content")
          case l: True
          have d2: "drop (Suc pos) content = content ! Suc pos # drop (pos + 2) content"
            using drop_nth_Cons [OF l] by simp
          from b ne ih show ?thesis unfolding s d d2 by simp
        next
          case nl: False
          then have "skip_quoted content quote (pos + 2) = pos + 2"
            by (subst skip_quoted.simps) simp
          with nl b ne show ?thesis unfolding s d by simp
        qed
      next
        case nb: False
        from True ne nb have s: "skip_quoted content quote pos = skip_quoted content quote (pos + 1)"
          by (subst skip_quoted.simps) simp
        from "1.IH" True ne nb "1.prems"
        have ih: "js_match (Quoted quote) stack (pos + 1) (drop (pos + 1) content) =
          (if skip_quoted content quote (pos + 1) < length content
           then js_match Code stack (skip_quoted content quote (pos + 1) + 1)
                  (drop (skip_quoted content quote (pos + 1) + 1) content)
           else None)"
          by simp
        from nb ne ih show ?thesis unfolding s d by simp
      qed
    qed
  qed
qed


lemma line_comment_scan:
  "js_match LineComment stack p (drop p content) =
     (if skip_line_comment content p < length content
      then js_match Code stack (skip_line_comment content p + 1)
             (drop (skip_line_comment content p + 1) content)
      else None)"
proof (induction content p rule: skip_line_comment.induct)
  case (1 content pos)
  show ?case
  proof (cases "pos < length content")
    case False
    then have "skip_line_comment content pos = pos" by (subst skip_line_comment.simps) simp
    with False show ?thesis by simp
  next
    case True
    note d = drop_nth_Cons [OF True]
    show ?thesis
    proof (cases "content ! pos = CHR 0x0A")
      case e: True
      with True have s: "skip_line_comment content pos = pos"
        by (subst skip_line_comment.simps) simp
      from e True show ?thesis unfolding s d by simp
    next
      case ne: False
      with True have s: "skip_line_comment content pos = skip_line_comment content (pos + 1)"
        by (subst skip_line_comment.simps) simp
      from "1.IH" True ne
      have ih: "js_match LineComment stack (pos + 1) (drop (pos + 1) content) =
          (if skip_line_comment content (pos + 1) < length content
           then js_match Code stack (skip_line_comment content (pos + 1) + 1)
                  (drop (skip_line_comment content (pos + 1) + 1) content)
           else None)"
        by simp
      from ne ih show ?thesis unfolding s d by simp
    qed
  qed
qed

lemma block_comment_scan:
  "js_match BlockComment stack p (drop p content) =
     (if skip_block_comment content p + 1 < length content
      then js_match Code stack (skip_block_comment content p + 2)
             (drop (skip_block_comment content p + 2) content)
      else None)"
proof (induction content p rule: skip_block_comment.induct)
  case (1 content pos)
  show ?case
  proof (cases "pos + 1 < length content")
    case False
    then have s: "skip_block_comment content pos = pos"
      by (subst skip_block_comment.simps) simp
    show ?thesis
    proof (cases "pos < length content")
      case True
      with False have "drop (Suc pos) content = []" by simp
      with False show ?thesis unfolding s drop_nth_Cons [OF True] by simp
    next
      case nl: False
      with False show ?thesis unfolding s by simp
    qed
  next
    case True
    then have p: "pos < length content" and p1: "Suc pos < length content" by simp_all
    have d: "drop pos content = content ! pos # content ! Suc pos # drop (pos + 2) content"
      using drop_nth_Cons [OF p] drop_nth_Cons [OF p1] by simp
    show ?thesis
    proof (cases "content ! pos = CHR ''*'' \<and> content ! (pos + 1) = CHR ''/''")
      case e: True
      with True have s: "skip_block_comment content pos = pos"
        by (subst skip_block_comment.simps) simp
      from e True show ?thesis unfolding s d by simp
    next
      case ne: False
      with True have s: "skip_block_comment content pos = skip_block_comment content (pos + 1)"
        by (subst skip_block_comment.simps) simp
      from "1.IH" True ne
      have ih: "js_match BlockComment stack (pos + 1) (drop (pos + 1) content) =
          (if skip_block_comment content (pos + 1) + 1 < length content
           then js_match Code stack (skip_block_comment content (pos + 1) + 2)
                  (drop (skip_block_comment content (pos + 1) + 2) content)
           else None)"
        by simp
      have d1: "drop (Suc pos) content = content ! Suc pos # drop (pos + 2) content"
        using drop_nth_Cons [OF p1] by simp
      from ne ih show ?thesis unfolding s d
        by (auto simp: d1)
    qed
  qed
qed

lemma brace_loop_done: "brace_loop content 0 pos = pos"
  by (subst brace_loop.simps) simp

lemma line_comment_start:
  assumes "pos + 1 < length content" "content ! pos = CHR ''/''" "content ! (pos + 1) = CHR ''/''"
  shows "skip_line_comment content pos = skip_line_comment content (pos + 2)"
proof -
  from assms have "skip_line_comment content pos = skip_line_comment content (pos + 1)"
    by (subst skip_line_comment.simps) simp
  also from assms have "\<dots> = skip_line_comment content (pos + 1 + 1)"
    by (subst skip_line_comment.simps) simp
  finally show ?thesis by simp
qed

lemma js_match_slash:
  "js_match Code stack i (CHR ''/'' # d # cs') =
     (if d = CHR ''/'' then js_match LineComment stack (i + 2) cs'
      else if d = CHR ''*'' then js_match BlockComment stack (i + 2) cs'
      else js_match Code stack (i + 1) (d # cs'))"
  by simp

lemma brace_loop_matches:
  assumes nb: "CHR 0x60 \<notin> set content"
  shows "0 < depth \<Longrightarrow>
         js_match Code (replicate depth Brace) pos (drop pos content) = Some q \<Longrightarrow>
         brace_loop content depth pos = q + 1"
  using nb
proof (induction content depth pos rule: brace_loop.induct)
  case (1 content depth pos)
  note dp = \<open>0 < depth\<close>
  note m = \<open>js_match Code (replicate depth Brace) pos (drop pos content) = Some q\<close>
  note nb = \<open>CHR 0x60 \<notin> set content\<close>
  have lt: "pos < length content"
  proof (rule ccontr)
    assume "\<not> pos < length content"
    with m show False by simp
  qed
  note d = drop_nth_Cons [OF lt]
  let ?ch = "content ! pos"
  let ?stack = "replicate depth Brace"
  from nb have tick: "?ch \<noteq> CHR 0x60"
    using nth_mem [OF lt] by metis
  show ?case
  proof (cases "?ch = CHR ''{''")
    case a: True
    from m a have "js_match Code (replicate (depth + 1) Brace) (pos + 1) (drop (pos + 1) content)
        = Some q"
      unfolding d by simp
    with "1.IH"(1) dp lt a nb have "brace_loop content (depth + 1) (pos + 1) = q + 1" by simp
    with dp lt a show ?thesis by (subst brace_loop.simps) simp
  next
    case na: False
    show ?thesis
    proof (cases "?ch = CHR ''}''")
      case b: True
      show ?thesis
      proof (cases "depth = 1")
        case True
        with m b have "q = pos" unfolding d by simp
        with dp lt b na True show ?thesis
          by (subst brace_loop.simps) (simp add: brace_loop_done)
      next
        case False
        with dp obtain n where n: "depth = Suc (Suc n)" by (cases depth; cases "depth - 1") auto
        from m b n have "js_match Code (replicate (depth - 1) Brace) (pos + 1) (drop (pos + 1) content)
            = Some q"
          unfolding d by simp
        with "1.IH"(2) dp lt na b nb n have "brace_loop content (depth - 1) (pos + 1) = q + 1"
          by simp
        with dp lt na b show ?thesis by (subst brace_loop.simps) simp
      qed
    next
      case nb': False
      show ?thesis
      proof (cases "?ch = CHR 0x22 \<or> ?ch = CHR 0x27")
        case c: True
        then have qn: "?ch \<noteq> CHR 0x5C" by auto
        let ?r = "skip_quoted content ?ch (pos + 1)"
        from m na nb' c have "js_match (Quoted ?ch) ?stack (pos + 1) (drop (pos + 1) content) = Some q"
          unfolding d by auto
        then have r: "?r < length content"
          and mr: "js_match Code ?stack (?r + 1) (drop (?r + 1) content) = Some q"
          unfolding quoted_scan [OF qn] by (simp_all split: if_splits)
        with "1.IH"(3) dp lt na nb' c nb have "brace_loop content depth (?r + 1) = q + 1"
          by simp
        with dp lt na nb' c show ?thesis by (subst brace_loop.simps) (simp add: Let_def)
      next
        case nc: False
        show ?thesis
        proof (cases "?ch = CHR ''/''")
          case s: True
          have l1: "pos + 1 < length content"
          proof (rule ccontr)
            assume "\<not> pos + 1 < length content"
            then have "drop (Suc pos) content = []" by simp
            with m s show False unfolding d by simp
          qed
          have d1: "drop (Suc pos) content = content ! (pos + 1) # drop (pos + 2) content"
            using drop_nth_Cons [OF l1] by simp
          show ?thesis
          proof (cases "content ! (pos + 1) = CHR ''/''")
            case lc: True
            let ?r = "skip_line_comment content pos"
            have st: "?r = skip_line_comment content (pos + 2)"
              by (rule line_comment_start [OF l1 s lc])
            from m s lc have "js_match LineComment ?stack (pos + 2) (drop (pos + 2) content) = Some q"
              unfolding d d1 by simp
            then have r: "?r < length content"
              and mr: "js_match Code ?stack (?r + 1) (drop (?r + 1) content) = Some q"
              unfolding line_comment_scan st by (simp_all split: if_splits)
            with "1.IH"(5) dp lt na nb' nc tick s l1 lc nb
            have "brace_loop content depth (?r + 1) = q + 1" by simp
            with dp lt na nb' nc tick s l1 lc show ?thesis
              by (subst brace_loop.simps) (simp add: Let_def)
          next
            case nlc: False
            show ?thesis
            proof (cases "content ! (pos + 1) = CHR ''*''")
              case bc: True
              let ?r = "skip_block_comment content (pos + 2)"
              from m s bc have "js_match BlockComment ?stack (pos + 2) (drop (pos + 2) content) = Some q"
                unfolding d d1 by simp
              then have r: "?r + 1 < length content"
                and mr: "js_match Code ?stack (?r + 2) (drop (?r + 2) content) = Some q"
                unfolding block_comment_scan by (simp_all split: if_splits)
              from mr have mr': "js_match Code ?stack (?r + 1 + 1) (drop (?r + 1 + 1) content) = Some q"
                by simp
              with "1.IH"(6) dp lt na nb' nc tick s l1 nlc bc nb
              have "brace_loop content depth (?r + 1 + 1) = q + 1" by simp
              with dp lt na nb' nc tick s l1 nlc bc show ?thesis
                by (subst brace_loop.simps) (simp add: Let_def)
            next
              case nbc: False
              have dd: "drop pos content = CHR ''/'' # content ! (pos + 1) # drop (pos + 2) content"
                using d d1 s by simp
              have e1: "content ! (pos + 1) # drop (pos + 2) content = drop (pos + 1) content"
                using d1 by simp
              from m have "js_match Code ?stack pos
                  (CHR ''/'' # content ! (pos + 1) # drop (pos + 2) content) = Some q"
                unfolding dd .
              with nlc nbc have "js_match Code ?stack (pos + 1)
                  (content ! (pos + 1) # drop (pos + 2) content) = Some q"
                by (simp only: js_match_slash if_False)
              then have "js_match Code ?stack (pos + 1) (drop (pos + 1) content) = Some q"
                unfolding e1 .
              with "1.IH"(7) dp lt na nb' nc tick s l1 nlc nbc nb
              have "brace_loop content depth (pos + 1) = q + 1" by simp
              with dp lt na nb' nc tick s l1 nlc nbc show ?thesis
                by (subst brace_loop.simps) (simp add: Let_def)
            qed
          qed
        next
          case ns: False
          from m na nb' nc tick ns have "js_match Code ?stack (pos + 1) (drop (pos + 1) content) = Some q"
            unfolding d by simp
          with "1.IH"(8) dp lt na nb' nc tick ns nb
          have "brace_loop content depth (pos + 1) = q + 1" by simp
          with dp lt na nb' nc tick ns show ?thesis
            by (subst brace_loop.simps) (simp add: Let_def)
        qed
      qed
    qed
  qed
qed

text \<open>
  Where the text holds no backtick, hence no template literal, the function returns the
  matching brace whenever there is one.
\<close>

lemma find_matching_brace_without_templates:
  assumes "CHR 0x60 \<notin> set s" and "matching_brace s p = Some q"
  shows "find_matching_brace s p = Inr q"
proof -
  from assms(2) have p: "p < length s" "s ! p = CHR ''{''"
    and m: "js_match Code (replicate 1 Brace) (p + 1) (drop (p + 1) s) = Some q"
    by (simp_all add: matching_brace_def split: if_splits)
  from brace_loop_matches [OF assms(1) _ m] have "brace_loop s 1 (p + 1) = q + 1" by simp
  with p show ?thesis by (simp add: find_matching_brace_def)
qed

text \<open>
  On a function body with strings, comments and a template literal the function returns
  the matching brace.
\<close>

lemma find_matching_brace_example:
  "find_matching_brace
     (''{ a = '' @ [CHR 0x27] @ ''}'' @ [CHR 0x27] @ ''; /* } */ b = '' @ [CHR 0x60] @
      ''x${ {y: 1}.y }'' @ [CHR 0x60] @ ''; // }'' @ [CHR 0x0A] @ '' } rest'') 0 = Inr 47 \<and>
   matching_brace
     (''{ a = '' @ [CHR 0x27] @ ''}'' @ [CHR 0x27] @ ''; /* } */ b = '' @ [CHR 0x60] @
      ''x${ {y: 1}.y }'' @ [CHR 0x60] @ ''; // }'' @ [CHR 0x0A] @ '' } rest'') 0 = Some 47"
  by code_simp

text \<open>
  C1: when the braces outside strings, template literals and comments are balanced,
  \<open>find_matching_brace\<close> returns the index of the matching closing brace.  The loop
  over a template expression does not know strings: in
  \<^verbatim>\<open>f() { return `${ '}' + `}` }`; }\<close> the brace inside the quoted string ends the
  expression for it, and the function returns the brace inside the nested template
  literal, index 24, where the brace that matches the one at index 4 is the last
  character, index 31.  In \<^verbatim>\<open>{`${"`"}`}\<close> the backtick inside the string is taken
  for a nested template literal and the function returns 10, the length of the text.
\<close>

theorem find_matching_brace_template_expression:
  "find_matching_brace
     (''f() { return '' @ [CHR 0x60] @ ''${ '' @ [CHR 0x27] @ ''}'' @ [CHR 0x27] @ '' + '' @
      [CHR 0x60] @ ''}'' @ [CHR 0x60] @ '' }'' @ [CHR 0x60] @ ''; }'') 4 = Inr 24 \<and>
   matching_brace
     (''f() { return '' @ [CHR 0x60] @ ''${ '' @ [CHR 0x27] @ ''}'' @ [CHR 0x27] @ '' + '' @
      [CHR 0x60] @ ''}'' @ [CHR 0x60] @ '' }'' @ [CHR 0x60] @ ''; }'') 4 = Some 31 \<and>
   find_matching_brace
     [CHR ''{'', CHR 0x60, CHR ''$'', CHR ''{'', CHR 0x22, CHR 0x60, CHR 0x22, CHR ''}'',
      CHR 0x60, CHR ''}''] 0 = Inr 10 \<and>
   matching_brace
     [CHR ''{'', CHR 0x60, CHR ''$'', CHR ''{'', CHR 0x22, CHR 0x60, CHR 0x22, CHR ''}'',
      CHR 0x60, CHR ''}''] 0 = Some 9"
  by code_simp

end
